theory Spec2Isabelle
  imports Main "HOL-Library.Word"
begin

unbundle bit_operations_syntax

section \<open>The guarded stack of src/stack.cpp\<close>

text \<open>
  A shallow embedding of \<^verbatim>\<open>src/stack.cpp\<close>: every function of the file that takes
  part in construct, push, pop, destruct, verification and the dump is a HOL function of
  the same name. The stack structure is passed and returned explicitly, the heap is a
  map from the addresses that \<^verbatim>\<open>realloc\<close> returned to the blocks at these addresses, and
  behaviour that C leaves undefined (a store or a load before, behind or without a
  block, \<^verbatim>\<open>realloc\<close> or \<^verbatim>\<open>free\<close> of a pointer that is not a block) is the outcome
  \<open>Fault\<close>.

  The headers \<^verbatim>\<open>include/stack.h\<close>, \<^verbatim>\<open>include/config.h\<close>, \<^verbatim>\<open>include/hash.h\<close> and
  \<^verbatim>\<open>include/log.h\<close> are not among the sources. What the code takes from them is
  a parameter of the model (record \<open>config\<close>) or is fixed as the source uses it:
  \<^item> \<^verbatim>\<open>size_t\<close> is 64 bits wide (the dump prints it with \<^verbatim>\<open>%ld\<close> and \<^verbatim>\<open>%lx\<close>);
  \<^item> \<^verbatim>\<open>item_t\<close> is \<^verbatim>\<open>int\<close>, 32 bits (the dump prints an item with \<^verbatim>\<open>%d\<close>);
  \<^item> \<^verbatim>\<open>canary_t\<close> is 64 bits (printed with \<^verbatim>\<open>%lx\<close>), \<^verbatim>\<open>hash_t\<close> is 32 bits (\<^verbatim>\<open>%8x\<close>);
  \<^item> a 64-bit word lies in memory with its low half first;
  \<^item> the switches \<^verbatim>\<open>UNPROTECT\<close>, \<^verbatim>\<open>HASH_PROTECT\<close>, \<^verbatim>\<open>CANARY_PROTECT\<close>, the constants
    \<^verbatim>\<open>CANARY\<close> and \<^verbatim>\<open>SEED\<close> and the function \<^verbatim>\<open>murmur_hash\<close> are fields of \<open>config\<close>;
  \<^item> the macro \<^verbatim>\<open>$\<close> runs the statement it wraps; \<^verbatim>\<open>log\<close>, \<^verbatim>\<open>log_buf\<close> and
    \<^verbatim>\<open>log_flush\<close> write to the log, which the model does not keep; \<^verbatim>\<open>log_dump\<close> calls
    \<^verbatim>\<open>dump_stack\<close>, whose loads the model keeps.
\<close>

subsection \<open>Types\<close>

type_synonym size_t = "64 word"
type_synonym item_t = "32 word"
type_synonym canary_t = "64 word"
type_synonym hash_t = "32 word"
type_synonym ptr = "64 word"

text \<open>\<^verbatim>\<open>stack_t\<close>, with the fields the source reads and writes. \<open>size_stk\<close> is the field
  \<^verbatim>\<open>size\<close>. The fields \<open>hash\<close>, \<open>left_canary\<close> and \<open>right_canary\<close> are only touched
  under \<^verbatim>\<open>HASH_PROTECT\<close> and \<^verbatim>\<open>CANARY_PROTECT\<close>.\<close>

record stack_t =
  items :: ptr
  capacity :: size_t
  size_stk :: size_t
  hash :: hash_t
  left_canary :: canary_t
  right_canary :: canary_t

text \<open>The bits of the verification mask (declared in \<^verbatim>\<open>include/stack.h\<close>). The mask is
  the set of the bits that are raised: \<^verbatim>\<open>vrf |= X\<close> is \<open>insert X vrf\<close> and the mask is zero
  when the set is empty.\<close>

datatype violation =
    INVALID_ITEMS
  | INVALID_CAPACITY
  | INVALID_SIZE
  | INVALID_HASH
  | INVALID_STK_LCNRY
  | INVALID_STK_RCNRY
  | INVALID_DATA_LCNRY
  | INVALID_DATA_RCNRY

text \<open>The local \<^verbatim>\<open>int err\<close> of the public operations: a verification mask
  (\<open>Vrf {}\<close> is 0), or one of the two error codes of \<^verbatim>\<open>include/stack.h\<close>.\<close>

datatype err = Vrf "violation set" | STK_BAD_ALLOC | STK_EMPTY_POP

definition is_err :: "err \<Rightarrow> bool" where
  "is_err e = (e \<noteq> Vrf {})"

text \<open>What \<^verbatim>\<open>murmur_hash\<close> is given to read: the object representation of the stack
  structure, or the items of a buffer.\<close>

datatype region = Struct stack_t | Items "item_t list"

record config =
  UNPROTECT :: bool
  HASH_PROTECT :: bool
  CANARY_PROTECT :: bool
  CANARY :: canary_t
  SEED :: "32 word"
  murmur_hash :: "region \<Rightarrow> 32 word \<Rightarrow> hash_t"

text \<open>Lines 16 to 19: \<^verbatim>\<open>UNPROTECT\<close> removes both protections.\<close>

definition hash_protect :: "config \<Rightarrow> bool" where
  "hash_protect cfg = (HASH_PROTECT cfg \<and> \<not> UNPROTECT cfg)"

definition canary_protect :: "config \<Rightarrow> bool" where
  "canary_protect cfg = (CANARY_PROTECT cfg \<and> \<not> UNPROTECT cfg)"

text \<open>A heap block: the bytes that one call of \<^verbatim>\<open>realloc\<close> handed out, from the address
  it returned on, as cells of four bytes. Every byte count that \<^verbatim>\<open>realloc_stack\<close>
  requests is a multiple of four. The cell \<open>i\<close> is \<^verbatim>\<open>items[i]\<close>; a guard word takes two
  cells.\<close>

record block =
  cells :: "item_t list"

type_synonym heap = "ptr \<Rightarrow> block option"

datatype 'a outcome = Fault | Returns 'a

text \<open>The answer of the allocator to one call of \<^verbatim>\<open>realloc\<close>: the address it returns
  (0 is the null pointer, the call failed) and the contents of the memory it hands out
  uninitialised.\<close>

record reply =
  addr :: ptr
  junk :: "nat \<Rightarrow> item_t"

subsection \<open>Constants\<close>

definition FILL_BYTE :: "32 word" where
  "FILL_BYTE = 117"

definition get_poison :: "32 word \<Rightarrow> item_t" where
  "get_poison byte =
     (let b = (ucast (ucast byte :: 8 word) :: item_t)
      in b OR push_bit 8 b OR push_bit 16 b OR push_bit 24 b)"

definition POISON :: item_t where
  "POISON = get_poison FILL_BYTE"

definition INIT_CAP :: size_t where
  "INIT_CAP = 8"

definition CAP_FACTOR :: size_t where
  "CAP_FACTOR = 2"

definition CAP_MAX :: size_t where
  "CAP_MAX = NOT (drop_bit 1 (- 1))"

definition sizeof_item_t :: size_t where
  "sizeof_item_t = 4"

subsection \<open>Small functions\<close>

definition expandable :: "stack_t \<Rightarrow> bool" where
  "expandable stk = (capacity stk = size_stk stk)"

definition shrinkable :: "stack_t \<Rightarrow> bool" where
  "shrinkable stk =
     (capacity stk div (CAP_FACTOR * CAP_FACTOR) + 1 \<ge> size_stk stk \<and>
      capacity stk > INIT_CAP)"

text \<open>\<^verbatim>\<open>right_canary\<close> computes the byte offset of the right guard word from the
  capacity; \<^verbatim>\<open>left_canary\<close> does not use the capacity.\<close>

definition right_canary_off :: "size_t \<Rightarrow> size_t" where
  "right_canary_off cap =
     sizeof_item_t * cap + 8 - (sizeof_item_t * cap) mod 8"

text \<open>The block a pointer addresses; the null pointer addresses none.\<close>

definition block_at :: "heap \<Rightarrow> ptr \<Rightarrow> block option" where
  "block_at h p = (if p = 0 then None else h p)"

text \<open>A load and a store of a \<^verbatim>\<open>canary_t\<close> at the byte offset \<open>off\<close> from the pointer
  \<open>p\<close>. The eight bytes are the cells \<open>off div 4\<close> and \<open>off div 4 + 1\<close> of the block
  that \<open>p\<close> addresses (the offsets the source computes are multiples of eight). Bytes
  before the block or behind it are not part of it.\<close>

definition load_canary :: "heap \<Rightarrow> ptr \<Rightarrow> int \<Rightarrow> canary_t outcome" where
  "load_canary h p off =
     (case block_at h p of
        None \<Rightarrow> Fault
      | Some b \<Rightarrow>
          if 0 \<le> off \<and> off + 8 \<le> 4 * int (length (cells b)) then
            (let i = nat (off div 4)
             in Returns (push_bit 32 (ucast (cells b ! Suc i)) OR ucast (cells b ! i)))
          else Fault)"

definition store_canary :: "heap \<Rightarrow> ptr \<Rightarrow> int \<Rightarrow> canary_t \<Rightarrow> heap outcome" where
  "store_canary h p off v =
     (case block_at h p of
        None \<Rightarrow> Fault
      | Some b \<Rightarrow>
          if 0 \<le> off \<and> off + 8 \<le> 4 * int (length (cells b)) then
            (let i = nat (off div 4)
             in Returns (h(p \<mapsto> b\<lparr>cells := (cells b)[i := ucast v,
                                                       Suc i := ucast (drop_bit 32 v)]\<rparr>)))
          else Fault)"

text \<open>The addresses \<^verbatim>\<open>left_canary(items, capacity)\<close> and
  \<^verbatim>\<open>right_canary(items, capacity)\<close> as byte offsets from \<^verbatim>\<open>items\<close>: the left guard
  word is at \<^verbatim>\<open>(char *)items - sizeof(canary_t)\<close>, eight bytes before the address that
  \<^verbatim>\<open>realloc\<close> returned, since \<^verbatim>\<open>realloc_stack\<close> hands that address on as it is.\<close>

definition left_canary_off :: int where
  "left_canary_off = - 8"

definition left_canary_at :: "heap \<Rightarrow> ptr \<Rightarrow> canary_t outcome" where
  "left_canary_at h p = load_canary h p left_canary_off"

definition right_canary_at :: "heap \<Rightarrow> ptr \<Rightarrow> size_t \<Rightarrow> canary_t outcome" where
  "right_canary_at h p cap = load_canary h p (int (unat (right_canary_off cap)))"

subsection \<open>hash_stack\<close>

text \<open>The number of items in \<^verbatim>\<open>capacity * sizeof(item_t)\<close> bytes; the product wraps
  in \<^verbatim>\<open>size_t\<close>.\<close>

definition items_in_bytes :: "size_t \<Rightarrow> nat" where
  "items_in_bytes cap = unat (cap * sizeof_item_t) div 4"

text \<open>The bytes \<^verbatim>\<open>murmur_hash(stk->items, stk->capacity * sizeof(item_t), seed)\<close>
  reads. Nothing is read when the length is 0.\<close>

definition load_items :: "heap \<Rightarrow> ptr \<Rightarrow> nat \<Rightarrow> item_t list outcome" where
  "load_items h p n =
     (if n = 0 then Returns []
      else case block_at h p of
             None \<Rightarrow> Fault
           | Some b \<Rightarrow> if n \<le> length (cells b) then Returns (take n (cells b)) else Fault)"

text \<open>\<^verbatim>\<open>hash_stack\<close> saves the field \<^verbatim>\<open>hash\<close>, clears it, hashes the structure and the
  buffer, and puts the saved value back. It returns the hash and the structure as it
  leaves it.\<close>

definition hash_stack :: "config \<Rightarrow> heap \<Rightarrow> stack_t \<Rightarrow> (hash_t \<times> stack_t) outcome" where
  "hash_stack cfg h stk =
     (let saved = hash stk;
          stk1 = stk\<lparr>hash := 0\<rparr>;
          stk_hash = murmur_hash cfg (Struct stk1) (SEED cfg)
      in case load_items h (items stk1) (items_in_bytes (capacity stk1)) of
           Fault \<Rightarrow> Fault
         | Returns d \<Rightarrow>
             let data_hash = murmur_hash cfg (Items d) (SEED cfg);
                 stk2 = stk1\<lparr>hash := saved\<rparr>
             in Returns (stk_hash XOR data_hash, stk2))"

subsection \<open>realloc_stack\<close>

text \<open>No object has more than \<^verbatim>\<open>PTRDIFF_MAX\<close> bytes.\<close>

definition PTRDIFF_MAX :: nat where
  "PTRDIFF_MAX = 2 ^ 63 - 1"

text \<open>The library function \<^verbatim>\<open>realloc\<close>, called for \<open>bytes\<close> bytes. A pointer that is
  neither null nor a block is undefined behaviour. What a request of zero bytes does is
  left to the C library, and the model does not follow it. The call fails, and the heap
  is as before, when the allocator answers null, and always when more than
  \<^verbatim>\<open>PTRDIFF_MAX\<close> bytes are requested. Otherwise the block at \<open>p\<close> is gone and the block
  at the answered address holds the old cells as far as both sizes go, and uninitialised
  memory after them.\<close>

definition realloc :: "heap \<Rightarrow> ptr \<Rightarrow> nat \<Rightarrow> reply \<Rightarrow> (heap \<times> ptr) outcome" where
  "realloc h p bytes r =
     (if p \<noteq> 0 \<and> h p = None then Fault
      else if bytes = 0 then Fault
      else if addr r = 0 \<or> PTRDIFF_MAX < bytes then Returns (h, 0)
      else
        let old = (case block_at h p of None \<Rightarrow> [] | Some b \<Rightarrow> cells b);
            new = map (\<lambda>i. if i < length old then old ! i else junk r i) [0..<bytes div 4];
            h1 = (if p = 0 then h else h(p := None))
        in Returns (h1(addr r \<mapsto> \<lparr>cells = new\<rparr>), addr r))"

text \<open>\<^verbatim>\<open>memset(items + stk->size, FILL_BYTE, cap - stk->size * sizeof(item_t))\<close> on the
  cells of a block of \<open>cap\<close> bytes: every cell from index \<open>n\<close> on becomes the poison.\<close>

definition memset_from :: "nat \<Rightarrow> item_t list \<Rightarrow> item_t list" where
  "memset_from n xs = take n xs @ replicate (length xs - n) (get_poison FILL_BYTE)"

text \<open>\<^verbatim>\<open>realloc_stack\<close>. The byte count \<open>cap\<close> wraps in \<^verbatim>\<open>size_t\<close> as in the source. The
  \<^verbatim>\<open>memset\<close> stays inside the new block when the \<open>size\<close> items before it fit into
  \<open>cap\<close> bytes. With \<^verbatim>\<open>CANARY_PROTECT\<close> the function then stores the right guard word
  and the left guard word (lines 104 and 105). The pointer it returns is the pointer
  \<^verbatim>\<open>realloc\<close> returned.\<close>

definition realloc_stack ::
  "config \<Rightarrow> heap \<Rightarrow> stack_t \<Rightarrow> size_t \<Rightarrow> reply \<Rightarrow> (heap \<times> ptr) outcome" where
  "realloc_stack cfg h stk capacity' r =
     (let cap0 = capacity' * sizeof_item_t;
          cap = (if canary_protect cfg then cap0 + (8 - cap0 mod 8 + 2 * 8) else cap0)
      in case realloc h (items stk) (unat cap) r of
           Fault \<Rightarrow> Fault
         | Returns (h1, p) \<Rightarrow>
             if p = 0 then Returns (h1, 0)
             else if unat cap < unat (size_stk stk) * 4 then Fault
             else
               (case block_at h1 p of
                  None \<Rightarrow> Fault
                | Some b \<Rightarrow>
                    let h2 = h1(p \<mapsto> b\<lparr>cells := memset_from (unat (size_stk stk)) (cells b)\<rparr>)
                    in if canary_protect cfg then
                         (case store_canary h2 p (int (unat (right_canary_off capacity')))
                                 (CANARY cfg XOR p) of
                            Fault \<Rightarrow> Fault
                          | Returns h3 \<Rightarrow>
                              (case store_canary h3 p left_canary_off (CANARY cfg XOR p) of
                                 Fault \<Rightarrow> Fault
                               | Returns h4 \<Rightarrow> Returns (h4, p)))
                       else Returns (h2, p)))"

subsection \<open>Verification\<close>

definition verify_empty_stack :: "config \<Rightarrow> stack_t \<Rightarrow> violation set" where
  "verify_empty_stack cfg stk =
     (if items stk \<noteq> 0 then {INVALID_ITEMS} else {}) \<union>
     (if capacity stk \<noteq> 0 then {INVALID_CAPACITY} else {}) \<union>
     (if size_stk stk \<noteq> 0 then {INVALID_SIZE} else {}) \<union>
     (if hash_protect cfg \<and> hash stk \<noteq> 0 then {INVALID_HASH} else {}) \<union>
     (if canary_protect cfg \<and> left_canary stk \<noteq> 0 then {INVALID_STK_LCNRY} else {}) \<union>
     (if canary_protect cfg \<and> right_canary stk \<noteq> 0 then {INVALID_STK_RCNRY} else {})"

text \<open>The part of \<^verbatim>\<open>verify_stack\<close> under \<^verbatim>\<open>CANARY_PROTECT\<close> (lines 326 to 343).\<close>

definition verify_stack_canary :: "config \<Rightarrow> heap \<Rightarrow> stack_t \<Rightarrow> violation set outcome" where
  "verify_stack_canary cfg h stk =
     (let cnry = CANARY cfg XOR items stk;
          meta = (if left_canary stk \<noteq> CANARY cfg then {INVALID_STK_LCNRY} else {}) \<union>
                 (if right_canary stk \<noteq> CANARY cfg then {INVALID_STK_RCNRY} else {})
      in if items stk \<noteq> 0 then
           (case left_canary_at h (items stk) of
              Fault \<Rightarrow> Fault
            | Returns l \<Rightarrow>
                (case right_canary_at h (items stk) (capacity stk) of
                   Fault \<Rightarrow> Fault
                 | Returns r \<Rightarrow>
                     Returns ((if l \<noteq> cnry then {INVALID_DATA_LCNRY} else {}) \<union>
                              (if r \<noteq> cnry then {INVALID_DATA_RCNRY} else {}) \<union> meta)))
         else Returns meta)"

text \<open>The part of \<^verbatim>\<open>verify_stack\<close> under \<^verbatim>\<open>HASH_PROTECT\<close> (lines 345 to 350). It
  returns the structure as \<^verbatim>\<open>hash_stack\<close> leaves it.\<close>

definition verify_stack_hash ::
  "config \<Rightarrow> heap \<Rightarrow> stack_t \<Rightarrow> (violation set \<times> stack_t) outcome" where
  "verify_stack_hash cfg h stk =
     (if items stk \<noteq> 0 then
        (case hash_stack cfg h stk of
           Fault \<Rightarrow> Fault
         | Returns (hv, stk') \<Rightarrow>
             Returns (if hash stk' \<noteq> hv then {INVALID_HASH} else {}, stk'))
      else Returns ({}, stk))"

definition verify_stack ::
  "config \<Rightarrow> heap \<Rightarrow> stack_t \<Rightarrow> (violation set \<times> stack_t) outcome" where
  "verify_stack cfg h stk =
     (let vrf = (if capacity stk > CAP_MAX \<or> capacity stk < INIT_CAP
                 then {INVALID_CAPACITY} else {}) \<union>
                (if size_stk stk > capacity stk then {INVALID_SIZE} else {})
      in case (if canary_protect cfg then verify_stack_canary cfg h stk else Returns {}) of
           Fault \<Rightarrow> Fault
         | Returns vc \<Rightarrow>
             (case (if hash_protect cfg then verify_stack_hash cfg h stk
                    else Returns ({}, stk)) of
                Fault \<Rightarrow> Fault
              | Returns (vh, stk') \<Rightarrow> Returns (vrf \<union> vc \<union> vh, stk')))"

subsection \<open>The public operations\<close>

text \<open>What an operation leaves behind: the heap, the structure, the local \<^verbatim>\<open>err\<close> at
  the label \<^verbatim>\<open>finally\<close> and the value returned. \<^verbatim>\<open>set_error\<close> stores \<open>err_of\<close> through
  the caller's pointer when it is not zero (\<open>is_err\<close>).\<close>

record 'a result =
  heap_of :: heap
  stk_of :: stack_t
  err_of :: err
  ret_of :: 'a

text \<open>The block \<^verbatim>\<open>#ifndef UNPROTECT  err = verify_stack(stk);\<close> that opens push and pop
  and closes construct, push and pop.\<close>

definition checked_verify :: "config \<Rightarrow> heap \<Rightarrow> stack_t \<Rightarrow> (err \<times> stack_t) outcome" where
  "checked_verify cfg h stk =
     (if UNPROTECT cfg then Returns (Vrf {}, stk)
      else case verify_stack cfg h stk of
             Fault \<Rightarrow> Fault
           | Returns (vrf, stk') \<Rightarrow> Returns (Vrf vrf, stk'))"

text \<open>The block \<^verbatim>\<open>#ifdef HASH_PROTECT  stk->hash = hash_stack(stk);\<close>.\<close>

definition refresh_hash :: "config \<Rightarrow> heap \<Rightarrow> stack_t \<Rightarrow> stack_t outcome" where
  "refresh_hash cfg h stk =
     (if hash_protect cfg then
        (case hash_stack cfg h stk of
           Fault \<Rightarrow> Fault
         | Returns (hv, stk') \<Rightarrow> Returns (stk'\<lparr>hash := hv\<rparr>))
      else Returns stk)"

text \<open>The two blocks together, as they close construct, push and pop.\<close>

definition refresh_and_verify ::
  "config \<Rightarrow> heap \<Rightarrow> stack_t \<Rightarrow> (err \<times> stack_t) outcome" where
  "refresh_and_verify cfg h stk =
     (case refresh_hash cfg h stk of
        Fault \<Rightarrow> Fault
      | Returns stk' \<Rightarrow> checked_verify cfg h stk')"

text \<open>A store to and a load from \<^verbatim>\<open>stk->items[i]\<close>.\<close>

definition store_item :: "heap \<Rightarrow> ptr \<Rightarrow> nat \<Rightarrow> item_t \<Rightarrow> heap outcome" where
  "store_item h p i v =
     (case block_at h p of
        None \<Rightarrow> Fault
      | Some b \<Rightarrow>
          if i < length (cells b) then Returns (h(p \<mapsto> b\<lparr>cells := (cells b)[i := v]\<rparr>))
          else Fault)"

definition load_item :: "heap \<Rightarrow> ptr \<Rightarrow> nat \<Rightarrow> item_t outcome" where
  "load_item h p i =
     (case block_at h p of
        None \<Rightarrow> Fault
      | Some b \<Rightarrow> if i < length (cells b) then Returns (cells b ! i) else Fault)"

text \<open>\<^verbatim>\<open>dump_stack\<close>, as far as it loads from memory: what it prints goes to the log.
  With a null buffer pointer it reads the structure only. Otherwise it calls
  \<^verbatim>\<open>verify_stack\<close>, then \<^verbatim>\<open>hash_stack\<close> and the loads of both guard words of the buffer as
  the build has them, and then loads \<^verbatim>\<open>stk->items[i]\<close> for every \<open>i\<close> below the
  capacity. It returns the structure as these calls leave it.\<close>

definition dump_stack :: "config \<Rightarrow> heap \<Rightarrow> stack_t \<Rightarrow> stack_t outcome" where
  "dump_stack cfg h stk =
     (if items stk = 0 then Returns stk
      else
        (case verify_stack cfg h stk of
           Fault \<Rightarrow> Fault
         | Returns (vrf, stk1) \<Rightarrow>
             (case (if hash_protect cfg then hash_stack cfg h stk1 else Returns (0, stk1)) of
                Fault \<Rightarrow> Fault
              | Returns (hv, stk2) \<Rightarrow>
                  (case (if canary_protect cfg then
                           (case left_canary_at h (items stk2) of
                              Fault \<Rightarrow> Fault
                            | Returns l \<Rightarrow> right_canary_at h (items stk2) (capacity stk2))
                         else Returns 0) of
                     Fault \<Rightarrow> Fault
                   | Returns r \<Rightarrow>
                       (case load_items h (items stk2) (unat (capacity stk2)) of
                          Fault \<Rightarrow> Fault
                        | Returns xs \<Rightarrow> Returns stk2)))))"

text \<open>Modelled from the spec: the macro \<^verbatim>\<open>log_dump\<close> of \<^verbatim>\<open>include/log.h\<close> is not among
  the sources. By the spec the dump is invoked whenever an operation fails, so
  \<^verbatim>\<open>log_dump(stk)\<close> is a call of \<^verbatim>\<open>dump_stack\<close>.\<close>

definition log_dump :: "config \<Rightarrow> heap \<Rightarrow> stack_t \<Rightarrow> stack_t outcome" where
  "log_dump cfg h stk = dump_stack cfg h stk"

text \<open>The label \<^verbatim>\<open>finally\<close> of construct, push and pop: with an error set, the
  operation calls \<^verbatim>\<open>set_error\<close> and \<^verbatim>\<open>log_dump\<close> before it returns.\<close>

definition at_finally :: "config \<Rightarrow> 'a result \<Rightarrow> 'a result outcome" where
  "at_finally cfg res =
     (if is_err (err_of res) then
        (case log_dump cfg (heap_of res) (stk_of res) of
           Fault \<Rightarrow> Fault
         | Returns stk' \<Rightarrow> Returns (res\<lparr>stk_of := stk'\<rparr>))
      else Returns res)"

text \<open>\<^verbatim>\<open>construct_stack\<close> returns \<^verbatim>\<open>stk\<close> (\<open>ret_of\<close> is \<open>True\<close>) or the null pointer.\<close>

definition construct_stack :: "config \<Rightarrow> heap \<Rightarrow> stack_t \<Rightarrow> reply \<Rightarrow> bool result outcome" where
  "construct_stack cfg h stk r =
     (let err0 = (if UNPROTECT cfg then {} else verify_empty_stack cfg stk)
      in if err0 \<noteq> {} then
           at_finally cfg \<lparr>heap_of = h, stk_of = stk, err_of = Vrf err0, ret_of = False\<rparr>
         else
           (case realloc_stack cfg h stk INIT_CAP r of
              Fault \<Rightarrow> Fault
            | Returns (h1, p) \<Rightarrow>
                if p = 0 then
                  at_finally cfg \<lparr>heap_of = h1, stk_of = stk, err_of = STK_BAD_ALLOC, ret_of = False\<rparr>
                else
                  let stk1 = stk\<lparr>capacity := INIT_CAP, items := p, size_stk := 0\<rparr>;
                      stk2 = (if canary_protect cfg
                              then stk1\<lparr>left_canary := CANARY cfg, right_canary := CANARY cfg\<rparr>
                              else stk1)
                  in (case refresh_and_verify cfg h1 stk2 of
                        Fault \<Rightarrow> Fault
                      | Returns (e, stk3) \<Rightarrow>
                          at_finally cfg \<lparr>heap_of = h1, stk_of = stk3, err_of = e,
                                   ret_of = \<not> is_err e\<rparr>)))"

definition push_stack ::
  "config \<Rightarrow> heap \<Rightarrow> stack_t \<Rightarrow> item_t \<Rightarrow> reply \<Rightarrow> unit result outcome" where
  "push_stack cfg h stk item r =
     (case checked_verify cfg h stk of
        Fault \<Rightarrow> Fault
      | Returns (e0, stk0) \<Rightarrow>
          if is_err e0 then
            at_finally cfg \<lparr>heap_of = h, stk_of = stk0, err_of = e0, ret_of = ()\<rparr>
          else
            (case (if expandable stk0 then
                     (let capacity' = capacity stk0 * CAP_FACTOR
                      in case realloc_stack cfg h stk0 capacity' r of
                           Fault \<Rightarrow> Fault
                         | Returns (h1, p) \<Rightarrow>
                             if p = 0 then Returns (h1, None)
                             else Returns (h1, Some (stk0\<lparr>capacity := capacity', items := p\<rparr>)))
                   else Returns (h, Some stk0)) of
               Fault \<Rightarrow> Fault
             | Returns (h1, None) \<Rightarrow>
                 at_finally cfg \<lparr>heap_of = h1, stk_of = stk0, err_of = STK_BAD_ALLOC, ret_of = ()\<rparr>
             | Returns (h1, Some stk1) \<Rightarrow>
                 (case store_item h1 (items stk1) (unat (size_stk stk1)) item of
                    Fault \<Rightarrow> Fault
                  | Returns h2 \<Rightarrow>
                      let stk2 = stk1\<lparr>size_stk := size_stk stk1 + 1\<rparr>
                      in (case refresh_and_verify cfg h2 stk2 of
                            Fault \<Rightarrow> Fault
                          | Returns (e, stk3) \<Rightarrow>
                              at_finally cfg \<lparr>heap_of = h2, stk_of = stk3, err_of = e,
                                       ret_of = ()\<rparr>))))"

text \<open>In \<^verbatim>\<open>pop_stack\<close> the local \<^verbatim>\<open>item\<close> is a \<^verbatim>\<open>size_t\<close>: an item is widened to 64 bits
  when it is assigned (with its sign, \<^verbatim>\<open>item_t\<close> being \<^verbatim>\<open>int\<close>) and cut to 32 bits when
  it is returned.\<close>

definition pop_stack :: "config \<Rightarrow> heap \<Rightarrow> stack_t \<Rightarrow> reply \<Rightarrow> item_t result outcome" where
  "pop_stack cfg h stk r =
     (let item0 = (scast POISON :: size_t)
      in case checked_verify cfg h stk of
           Fault \<Rightarrow> Fault
         | Returns (e0, stk0) \<Rightarrow>
             if is_err e0 then
               at_finally cfg \<lparr>heap_of = h, stk_of = stk0, err_of = e0, ret_of = ucast item0\<rparr>
             else if size_stk stk0 = 0 then
               at_finally cfg \<lparr>heap_of = h, stk_of = stk0, err_of = STK_EMPTY_POP,
                        ret_of = ucast item0\<rparr>
             else
               (case (if shrinkable stk0 then
                        (let capacity' = capacity stk0 div CAP_FACTOR
                         in case realloc_stack cfg h stk0 capacity' r of
                              Fault \<Rightarrow> Fault
                            | Returns (h1, p) \<Rightarrow>
                                if p = 0 then Returns (h1, None)
                                else Returns (h1, Some (stk0\<lparr>items := p, capacity := capacity'\<rparr>)))
                      else Returns (h, Some stk0)) of
                  Fault \<Rightarrow> Fault
                | Returns (h1, None) \<Rightarrow>
                    at_finally cfg \<lparr>heap_of = h1, stk_of = stk0, err_of = STK_BAD_ALLOC,
                             ret_of = ucast item0\<rparr>
                | Returns (h1, Some stk1) \<Rightarrow>
                    let stk2 = stk1\<lparr>size_stk := size_stk stk1 - 1\<rparr>
                    in (case load_item h1 (items stk2) (unat (size_stk stk2)) of
                          Fault \<Rightarrow> Fault
                        | Returns v \<Rightarrow>
                            let item1 = (scast v :: size_t)
                            in (case store_item h1 (items stk2) (unat (size_stk stk2)) POISON of
                                  Fault \<Rightarrow> Fault
                                | Returns h2 \<Rightarrow>
                                    (case refresh_and_verify cfg h2 stk2 of
                                       Fault \<Rightarrow> Fault
                                     | Returns (e, stk3) \<Rightarrow>
                                         at_finally cfg \<lparr>heap_of = h2, stk_of = stk3, err_of = e,
                                                  ret_of = ucast item1\<rparr>)))))"

text \<open>\<^verbatim>\<open>free\<close> of a pointer that is not a block is undefined behaviour.\<close>

definition destruct_stack :: "config \<Rightarrow> heap \<Rightarrow> stack_t \<Rightarrow> (heap \<times> stack_t) outcome" where
  "destruct_stack cfg h stk =
     (if items stk \<noteq> 0 \<and> h (items stk) = None then Fault
      else
        let h1 = (if items stk \<noteq> 0 then h(items stk := None) else h);
            stk1 = stk\<lparr>items := 0, capacity := 0, size_stk := 0\<rparr>;
            stk2 = (if hash_protect cfg then stk1\<lparr>hash := 0\<rparr> else stk1);
            stk3 = (if canary_protect cfg
                    then stk2\<lparr>left_canary := 0, right_canary := 0\<rparr> else stk2)
        in Returns (h1, stk3))"

section \<open>Example configurations and states\<close>

text \<open>A stand-in for \<^verbatim>\<open>murmur_hash\<close>, used where a statement is evaluated on a concrete
  input: it adds up what it reads.\<close>

definition sum_hash :: "region \<Rightarrow> 32 word \<Rightarrow> hash_t" where
  "sum_hash rg seed =
     (case rg of
        Struct k \<Rightarrow> ucast (items k + capacity k + size_stk k + left_canary k + right_canary k) + seed
      | Items xs \<Rightarrow> sum_list xs + seed)"

text \<open>A build with both protections, a build with \<^verbatim>\<open>HASH_PROTECT\<close> only, a build with
  neither protection that still verifies, and a build with \<^verbatim>\<open>UNPROTECT\<close>.\<close>

definition guarded_cfg :: config where
  "guarded_cfg = \<lparr>UNPROTECT = False, HASH_PROTECT = True, CANARY_PROTECT = True,
     CANARY = 0xBADC0FFEE, SEED = 1, murmur_hash = sum_hash\<rparr>"

definition hashed_cfg :: config where
  "hashed_cfg = \<lparr>UNPROTECT = False, HASH_PROTECT = True, CANARY_PROTECT = False,
     CANARY = 0xBADC0FFEE, SEED = 1, murmur_hash = sum_hash\<rparr>"

definition plain_cfg :: config where
  "plain_cfg = \<lparr>UNPROTECT = False, HASH_PROTECT = False, CANARY_PROTECT = False,
     CANARY = 0xBADC0FFEE, SEED = 1, murmur_hash = sum_hash\<rparr>"

definition unprotected_cfg :: config where
  "unprotected_cfg = \<lparr>UNPROTECT = True, HASH_PROTECT = True, CANARY_PROTECT = True,
     CANARY = 0xBADC0FFEE, SEED = 1, murmur_hash = sum_hash\<rparr>"

definition zero_stack :: stack_t where
  "zero_stack = \<lparr>items = 0, capacity = 0, size_stk = 0, hash = 0,
     left_canary = 0, right_canary = 0\<rparr>"

definition empty_heap :: heap where
  "empty_heap = (\<lambda>p. None)"

definition reply_at :: "ptr \<Rightarrow> reply" where
  "reply_at p = \<lparr>addr = p, junk = (\<lambda>i. 0)\<rparr>"

section \<open>The verifier does not write\<close>

text \<open>The loads of \<^verbatim>\<open>verify_stack\<close> are defined: the buffer pointer is null, or the
  build has no \<^verbatim>\<open>CANARY_PROTECT\<close> (the load of the left guard word is before the
  block) and the pointer addresses a block that is long enough for the bytes the hash
  reads (with \<^verbatim>\<open>HASH_PROTECT\<close>).\<close>

definition readable :: "config \<Rightarrow> heap \<Rightarrow> stack_t \<Rightarrow> bool" where
  "readable cfg h stk =
     (items stk = 0 \<or>
      \<not> canary_protect cfg \<and>
      (hash_protect cfg \<longrightarrow>
         items_in_bytes (capacity stk) = 0 \<or>
         (case h (items stk) of
            None \<Rightarrow> False
          | Some b \<Rightarrow> items_in_bytes (capacity stk) \<le> length (cells b))))"

text \<open>The loads of the loop that closes \<^verbatim>\<open>dump_stack\<close> are defined: the buffer pointer
  is null, or the capacity is 0, or the pointer addresses a block that holds as many
  items as the capacity says.\<close>

definition holds_capacity :: "heap \<Rightarrow> stack_t \<Rightarrow> bool" where
  "holds_capacity h stk =
     (items stk = 0 \<or> capacity stk = 0 \<or>
      (case h (items stk) of
         None \<Rightarrow> False
       | Some b \<Rightarrow> unat (capacity stk) \<le> length (cells b)))"

text \<open>A stack is valid when \<^verbatim>\<open>verify_stack\<close> raises no bit and the buffer holds the
  capacity.\<close>

definition valid :: "config \<Rightarrow> heap \<Rightarrow> stack_t \<Rightarrow> bool" where
  "valid cfg h stk =
     ((case verify_stack cfg h stk of Fault \<Rightarrow> False | Returns (vrf, stk') \<Rightarrow> vrf = {}) \<and>
      holds_capacity h stk)"

lemma ucast_scast_item: "ucast (scast (v :: item_t) :: size_t) = v"
proof (rule bit_word_eqI)
  fix n assume "n < LENGTH(32)"
  then have n: "n < 32" by simp
  show "bit (ucast (scast v :: size_t) :: item_t) n = bit v n"
  proof (cases "n = 31")
    case True
    then show ?thesis by (simp add: bit_signed_iff bit_unsigned_iff)
  next
    case False
    with n have "n < 31" by simp
    then show ?thesis by (simp add: bit_signed_iff bit_unsigned_iff min_def)
  qed
qed

lemma POISON_value: "POISON = 0x75757575"
  by (simp add: POISON_def get_poison_def FILL_BYTE_def)

lemma CAP_MAX_value: "CAP_MAX = 2 ^ 63"
  unfolding CAP_MAX_def by code_simp

lemma hash_stack_same: "hash_stack cfg h stk = Returns (hv, stk') \<Longrightarrow> stk' = stk"
  by (auto simp: hash_stack_def Let_def split: outcome.splits)

lemma verify_stack_hash_same:
  "verify_stack_hash cfg h stk = Returns (m, stk') \<Longrightarrow> stk' = stk"
  by (auto simp: verify_stack_hash_def split: outcome.splits if_splits dest: hash_stack_same)

lemma verify_stack_same: "verify_stack cfg h stk = Returns (m, stk') \<Longrightarrow> stk' = stk"
  by (auto simp: verify_stack_def Let_def split: outcome.splits if_splits
      dest: verify_stack_hash_same)

lemma checked_verify_same: "checked_verify cfg h stk = Returns (e, stk') \<Longrightarrow> stk' = stk"
  by (auto simp: checked_verify_def split: outcome.splits if_splits dest: verify_stack_same)

lemma dump_stack_same: "dump_stack cfg h stk = Returns stk' \<Longrightarrow> stk' = stk"
  by (auto simp: dump_stack_def split: if_splits outcome.splits
      dest!: verify_stack_same hash_stack_same)

lemma at_finally_ok [simp]: "\<not> is_err (err_of res) \<Longrightarrow> at_finally cfg res = Returns res"
  by (simp add: at_finally_def)

lemma at_finally_Returns: "at_finally cfg res = Returns res' \<Longrightarrow> res' = res"
  by (auto simp: at_finally_def log_dump_def split: if_splits outcome.splits
      dest: dump_stack_same)

lemma at_finally_dumped:
  "dump_stack cfg (heap_of res) (stk_of res) = Returns (stk_of res) \<Longrightarrow>
   at_finally cfg res = Returns res"
  by (simp add: at_finally_def log_dump_def)

lemma left_canary_at_Fault [simp]: "left_canary_at h p = Fault"
  by (simp add: left_canary_at_def load_canary_def left_canary_off_def split: option.splits)

lemma verify_stack_canary_buffer:
  "items stk \<noteq> 0 \<Longrightarrow> verify_stack_canary cfg h stk = Fault"
  by (simp add: verify_stack_canary_def Let_def)

lemma verify_stack_canary_null:
  "items stk = 0 \<Longrightarrow> \<exists>m. verify_stack_canary cfg h stk = Returns m"
  by (simp add: verify_stack_canary_def Let_def)

lemma verify_stack_hash_defined:
  "verify_stack_hash cfg h stk \<noteq> Fault \<longleftrightarrow>
     items stk = 0 \<or> items_in_bytes (capacity stk) = 0 \<or>
     (case h (items stk) of
        None \<Rightarrow> False
      | Some b \<Rightarrow> items_in_bytes (capacity stk) \<le> length (cells b))"
  by (auto simp: verify_stack_hash_def hash_stack_def load_items_def block_at_def Let_def
      split: option.splits)

lemma verify_stack_defined: "verify_stack cfg h stk \<noteq> Fault \<longleftrightarrow> readable cfg h stk"
proof (cases "items stk = 0")
  case True
  then have "verify_stack_hash cfg h stk \<noteq> Fault" by (simp add: verify_stack_hash_defined)
  moreover from True obtain m where "verify_stack_canary cfg h stk = Returns m"
    using verify_stack_canary_null by blast
  ultimately show ?thesis using True
    by (auto simp: verify_stack_def readable_def Let_def split: outcome.splits)
next
  case nz: False
  show ?thesis
  proof (cases "canary_protect cfg")
    case True
    then show ?thesis using nz
      by (simp add: verify_stack_def readable_def verify_stack_canary_buffer Let_def)
  next
    case False
    then show ?thesis using nz verify_stack_hash_defined [of cfg h stk]
      by (cases "hash_protect cfg")
        (auto simp: verify_stack_def readable_def Let_def split: outcome.splits)
  qed
qed

lemma verify_stack_readable:
  "readable cfg h stk \<Longrightarrow> \<exists>vrf. verify_stack cfg h stk = Returns (vrf, stk)"
proof -
  assume "readable cfg h stk"
  then have "verify_stack cfg h stk \<noteq> Fault" by (simp add: verify_stack_defined)
  then obtain vrf stk' where v: "verify_stack cfg h stk = Returns (vrf, stk')"
    by (cases "verify_stack cfg h stk") auto
  from verify_stack_same [OF v] v show ?thesis by simp
qed

lemma dump_stack_defined:
  "dump_stack cfg h stk \<noteq> Fault \<longleftrightarrow> readable cfg h stk \<and> holds_capacity h stk"
proof (cases "items stk = 0")
  case True
  then show ?thesis by (simp add: dump_stack_def readable_def holds_capacity_def)
next
  case nz: False
  show ?thesis
  proof (cases "readable cfg h stk")
    case False
    then have "verify_stack cfg h stk = Fault" using verify_stack_defined by blast
    then show ?thesis using nz False by (simp add: dump_stack_def)
  next
    case rd: True
    from verify_stack_readable [OF rd] obtain vrf where
      v: "verify_stack cfg h stk = Returns (vrf, stk)" by blast
    from rd nz have nc: "\<not> canary_protect cfg" by (simp add: readable_def)
    have hs: "hash_protect cfg \<Longrightarrow> \<exists>hv. hash_stack cfg h stk = Returns (hv, stk)"
      using v nz
      by (auto simp: verify_stack_def verify_stack_hash_def Let_def
          split: if_splits outcome.splits dest: hash_stack_same)
    have ld: "load_items h (items stk) (unat (capacity stk)) \<noteq> Fault \<longleftrightarrow>
        holds_capacity h stk"
      using nz by (auto simp: load_items_def block_at_def holds_capacity_def unat_eq_0
          split: option.splits)
    show ?thesis
      using v nz nc hs ld rd
      by (cases "hash_protect cfg") (auto simp: dump_stack_def split: outcome.splits)
  qed
qed

lemma dump_stack_verified:
  assumes v: "verify_stack cfg h stk = Returns (vrf, stk)" and c: "holds_capacity h stk"
  shows "dump_stack cfg h stk = Returns stk"
proof -
  from v have "readable cfg h stk" using verify_stack_defined [of cfg h stk] by simp
  with c have "dump_stack cfg h stk \<noteq> Fault" by (simp add: dump_stack_defined)
  then obtain stk' where d: "dump_stack cfg h stk = Returns stk'"
    by (cases "dump_stack cfg h stk") auto
  from dump_stack_same [OF d] d show ?thesis by simp
qed

text \<open>
  Claim C9, as the code has it. \<^verbatim>\<open>verify_stack\<close> takes the heap and returns none, so
  it stores nothing in the buffer, and the structure it hands back is the structure it
  was given, whatever the fields hold, although \<^verbatim>\<open>hash_stack\<close> clears and restores the
  field \<^verbatim>\<open>hash\<close> on the way. It returns its mask exactly for the states whose loads are
  defined (\<open>readable\<close>): a wrong size, capacity or hash does not matter as long as the
  buffer pointer is null, or the build has no \<^verbatim>\<open>CANARY_PROTECT\<close> and the pointer addresses
  a block that holds the bytes to hash.
\<close>

theorem verify_stack_read_only:
  "(readable cfg h stk \<longrightarrow> (\<exists>vrf. verify_stack cfg h stk = Returns (vrf, stk))) \<and>
   (verify_stack cfg h stk \<noteq> Fault \<longrightarrow> readable cfg h stk) \<and>
   (\<forall>vrf stk'. verify_stack cfg h stk = Returns (vrf, stk') \<longrightarrow> stk' = stk) \<and>
   (\<forall>hv stk'. hash_stack cfg h stk = Returns (hv, stk') \<longrightarrow> stk' = stk)"
  using verify_stack_readable verify_stack_defined verify_stack_same hash_stack_same by blast

text \<open>A corrupted stack in a build with \<^verbatim>\<open>HASH_PROTECT\<close> only: the capacity is below the
  initial capacity and below the length of the buffer, the size exceeds the capacity,
  the stored hash is wrong.\<close>

definition corrupted_stack :: stack_t where
  "corrupted_stack = \<lparr>items = 0x1000, capacity = 7, size_stk = 9, hash = 5,
     left_canary = 0, right_canary = 0\<rparr>"

definition corrupted_heap :: heap where
  "corrupted_heap = empty_heap(0x1000 \<mapsto> \<lparr>cells = [1, 2, 3, 4, 5, 6, 7, 8]\<rparr>)"

theorem verify_stack_read_only_witness:
  "readable hashed_cfg corrupted_heap corrupted_stack \<and>
   verify_stack hashed_cfg corrupted_heap corrupted_stack =
     Returns ({INVALID_CAPACITY, INVALID_SIZE, INVALID_HASH}, corrupted_stack)"
proof -
  have r: "readable hashed_cfg corrupted_heap corrupted_stack"
    by (simp add: readable_def hashed_cfg_def corrupted_heap_def corrupted_stack_def
        empty_heap_def canary_protect_def hash_protect_def items_in_bytes_def
        sizeof_item_t_def)
  with verify_stack_read_only [of hashed_cfg corrupted_heap corrupted_stack]
  obtain vrf where v: "verify_stack hashed_cfg corrupted_heap corrupted_stack =
      Returns (vrf, corrupted_stack)"
    by blast
  have "verify_stack hashed_cfg corrupted_heap corrupted_stack =
      Returns ({INVALID_CAPACITY, INVALID_SIZE, INVALID_HASH}, corrupted_stack)"
    by (simp add: verify_stack_def verify_stack_hash_def
        hash_stack_def load_items_def block_at_def
        hashed_cfg_def corrupted_heap_def corrupted_stack_def empty_heap_def
        canary_protect_def hash_protect_def items_in_bytes_def sizeof_item_t_def
        sum_hash_def CAP_MAX_value INIT_CAP_def Let_def insert_commute)
  with r v show ?thesis by simp
qed

text \<open>A stack whose capacity field was overwritten with the fill byte, in a build with
  \<^verbatim>\<open>HASH_PROTECT\<close> only; and a stack with a buffer as \<^verbatim>\<open>realloc_stack\<close> lays it out
  with \<^verbatim>\<open>CANARY_PROTECT\<close>: eight items, a padding of eight bytes, the right guard word
  and eight bytes more, all in a block of 56 bytes.\<close>

definition overwritten_stack :: stack_t where
  "overwritten_stack = \<lparr>items = 0x1000, capacity = 0x7575757575757575, size_stk = 8,
     hash = 4148, left_canary = 0, right_canary = 0\<rparr>"

definition overwritten_heap :: heap where
  "overwritten_heap = empty_heap(0x1000 \<mapsto> \<lparr>cells = [1, 2, 3, 4, 5, 6, 7, 8]\<rparr>)"

definition guarded_stack :: stack_t where
  "guarded_stack = \<lparr>items = 0x1000, capacity = 8, size_stk = 8, hash = 0,
     left_canary = 0xBADC0FFEE, right_canary = 0xBADC0FFEE\<rparr>"

definition guarded_heap :: heap where
  "guarded_heap = empty_heap(0x1000 \<mapsto>
     \<lparr>cells = [1, 2, 3, 4, 5, 6, 7, 8, 0x75757575, 0x75757575,
               0xADC0EFEE, 0xB, 0x75757575, 0x75757575]\<rparr>)"

text \<open>The claim C9 as it was stated fails on both. On the first, \<^verbatim>\<open>verify_stack\<close>
  raises \<^verbatim>\<open>INVALID_CAPACITY\<close> and goes on to hash the bytes that the capacity says, far
  outside the buffer of 8 items. On the second the right guard word is loaded from the
  block, and the left guard word from the eight bytes before the block. Neither call
  returns a mask.\<close>

theorem verify_stack_read_only_counterexample:
  "verify_stack hashed_cfg overwritten_heap overwritten_stack = Fault \<and>
   hash_stack hashed_cfg overwritten_heap overwritten_stack = Fault \<and>
   verify_stack guarded_cfg guarded_heap guarded_stack = Fault \<and>
   right_canary_at guarded_heap (items guarded_stack) (capacity guarded_stack) =
     Returns (CANARY guarded_cfg XOR items guarded_stack) \<and>
   left_canary_at guarded_heap (items guarded_stack) = Fault"
  by (simp add: verify_stack_def verify_stack_canary_def verify_stack_hash_def
      hash_stack_def load_items_def left_canary_at_def right_canary_at_def load_canary_def
      left_canary_off_def block_at_def
      hashed_cfg_def guarded_cfg_def overwritten_heap_def overwritten_stack_def
      guarded_heap_def guarded_stack_def empty_heap_def
      canary_protect_def hash_protect_def items_in_bytes_def sizeof_item_t_def
      right_canary_off_def sum_hash_def CAP_MAX_value INIT_CAP_def Let_def)

section \<open>Pop on an empty stack\<close>

text \<open>
  Claim C5. On a valid stack whose size is 0, \<^verbatim>\<open>pop_stack\<close> sets
  \<^verbatim>\<open>STK_EMPTY_POP\<close>, returns the poison and leaves the structure and the heap as
  they were. A stack is valid when \<^verbatim>\<open>verify_stack\<close> raises no bit and the buffer holds
  the capacity, so that the dump the operation writes stays inside the buffer.
\<close>

theorem pop_empty:
  assumes "valid cfg h stk" and "size_stk stk = 0"
  shows "pop_stack cfg h stk r =
           Returns \<lparr>heap_of = h, stk_of = stk, err_of = STK_EMPTY_POP, ret_of = POISON\<rparr>"
proof -
  from assms(1) obtain stk' where v: "verify_stack cfg h stk = Returns ({}, stk')"
    and c: "holds_capacity h stk"
    by (auto simp: valid_def split: outcome.splits)
  from v have "stk' = stk" by (rule verify_stack_same)
  with v have v': "verify_stack cfg h stk = Returns ({}, stk)" by simp
  then have cv: "checked_verify cfg h stk = Returns (Vrf {}, stk)"
    by (simp add: checked_verify_def)
  have "dump_stack cfg h stk = Returns stk" using v' c by (rule dump_stack_verified)
  then have "at_finally cfg
      \<lparr>heap_of = h, stk_of = stk, err_of = STK_EMPTY_POP, ret_of = POISON\<rparr> =
      Returns \<lparr>heap_of = h, stk_of = stk, err_of = STK_EMPTY_POP, ret_of = POISON\<rparr>"
    by (simp add: at_finally_dumped)
  then show ?thesis using cv assms(2)
    by (simp add: pop_stack_def is_err_def ucast_scast_item)
qed

section \<open>The invariant of a live stack\<close>

text \<open>The capacities that construct, push and pop produce: 8 times a power of two, up
  to \<open>2 ^ 60\<close> items. A buffer of twice as many items has more than \<^verbatim>\<open>PTRDIFF_MAX\<close>
  bytes.\<close>

definition cap_ok :: "size_t \<Rightarrow> bool" where
  "cap_ok c = (\<exists>k\<le>57. unat c = 8 * 2 ^ k)"

lemma cap_ok_bounds: "cap_ok c \<Longrightarrow> 8 \<le> unat c \<and> unat c \<le> 2 ^ 60"
proof -
  assume "cap_ok c"
  then obtain k where k: "k \<le> 57" "unat c = 8 * 2 ^ k" by (auto simp: cap_ok_def)
  have "(2::nat) ^ k \<le> 2 ^ 57" using k(1) by (intro power_increasing) auto
  then have "8 * (2::nat) ^ k \<le> 8 * 2 ^ 57" by simp
  moreover have "(1::nat) \<le> 2 ^ k" by simp
  ultimately show ?thesis using k(2) by simp
qed

lemma unat_times4: "unat c \<le> 2 ^ 61 \<Longrightarrow> unat (c * sizeof_item_t) = 4 * unat c"
  for c :: size_t
  by (simp add: sizeof_item_t_def unat_word_ariths)

lemma items_in_bytes_small: "unat c \<le> 2 ^ 61 \<Longrightarrow> items_in_bytes c = unat c"
  by (simp add: items_in_bytes_def unat_times4)

lemma cap_ok_range: "cap_ok c \<Longrightarrow> \<not> c > CAP_MAX \<and> \<not> c < INIT_CAP"
  using cap_ok_bounds [of c]
  by (auto simp: CAP_MAX_value INIT_CAP_def word_less_nat_alt)

lemma unat_double: "unat c < 2 ^ 61 \<Longrightarrow> unat (c * CAP_FACTOR) = 2 * unat c" for c :: size_t
  by (simp add: CAP_FACTOR_def unat_word_ariths)

lemma unat_half: "unat (c div CAP_FACTOR) = unat c div 2" for c :: size_t
  by (simp add: CAP_FACTOR_def unat_div)

lemma unat_quarter_plus1: "unat (c div (CAP_FACTOR * CAP_FACTOR) + 1) = unat c div 4 + 1" for c :: size_t
proof -
  have "unat c < 2 ^ 64" using unsigned_less [of c] by simp
  then have "unat c div 4 + 1 < 2 ^ 64" by simp
  then show ?thesis
    by (simp add: CAP_FACTOR_def unat_word_ariths unat_div)
qed

lemma cap_ok_double: "cap_ok c \<Longrightarrow> unat c < 2 ^ 60 \<Longrightarrow> cap_ok (c * CAP_FACTOR)"
proof -
  assume a: "cap_ok c" "unat c < 2 ^ 60"
  then obtain k where k: "k \<le> 57" "unat c = 8 * 2 ^ k" by (auto simp: cap_ok_def)
  have "k \<noteq> 57" using a(2) k(2) by auto
  then have "Suc k \<le> 57" using k(1) by simp
  moreover have "unat c < 2 ^ 61" using a(2) by simp
  then have "unat (c * CAP_FACTOR) = 8 * 2 ^ Suc k" using unat_double k(2) by simp
  ultimately show ?thesis unfolding cap_ok_def by blast
qed

lemma cap_ok_half: "cap_ok c \<Longrightarrow> 8 < unat c \<Longrightarrow> cap_ok (c div CAP_FACTOR)"
proof -
  assume a: "cap_ok c" "8 < unat c"
  then obtain k where k: "k \<le> 57" "unat c = 8 * 2 ^ k" by (auto simp: cap_ok_def)
  from a(2) k(2) obtain j where j: "k = Suc j" by (cases k) auto
  have "unat (c div CAP_FACTOR) = 8 * 2 ^ j" using k(2) j by (simp add: unat_half)
  moreover have "j \<le> 57" using k(1) j by simp
  ultimately show ?thesis unfolding cap_ok_def by blast
qed

lemma guard_room:
  fixes bytes :: size_t
  assumes "unat bytes \<le> 2 ^ 63"
  shows "unat bytes \<le> unat (bytes + (8 - bytes mod 8 + 2 * 8)) \<and>
         unat (bytes + (8 - bytes mod 8 + 2 * 8)) \<le> unat bytes + 24"
proof -
  have m: "unat (bytes mod 8) < 8" by (simp add: unat_mod)
  then have le: "bytes mod 8 \<le> 24" by (simp add: word_le_nat_alt)
  have e: "8 - bytes mod 8 + 2 * 8 = 24 - bytes mod 8" by simp
  have s: "unat (24 - bytes mod 8) = 24 - unat (bytes mod 8)"
    using unat_sub [OF le] by simp
  have "unat bytes + unat (24 - bytes mod 8) < 2 ^ 64"
    using assms s by simp
  then have "unat (bytes + (24 - bytes mod 8)) = unat bytes + unat (24 - bytes mod 8)"
    using unat_add_lem [of bytes "24 - bytes mod 8"] by simp
  then show ?thesis unfolding e using s by simp
qed

text \<open>The byte count that \<^verbatim>\<open>realloc_stack\<close> requests for \<open>c\<close> items.\<close>

definition request :: "config \<Rightarrow> size_t \<Rightarrow> size_t" where
  "request cfg c =
     (let cap0 = c * sizeof_item_t
      in if canary_protect cfg then cap0 + (8 - cap0 mod 8 + 2 * 8) else cap0)"

lemma request_bounds:
  assumes "unat c \<le> 2 ^ 61"
  shows "4 * unat c \<le> unat (request cfg c) \<and> unat (request cfg c) \<le> 4 * unat c + 24 \<and>
         unat (c * sizeof_item_t) \<le> unat (request cfg c)"
proof -
  have u: "unat (c * sizeof_item_t) = 4 * unat c" using assms by (rule unat_times4)
  then have "unat (c * sizeof_item_t) \<le> 2 ^ 63" using assms by simp
  from guard_room [OF this] u show ?thesis by (simp add: request_def Let_def)
qed

lemma length_memset_from [simp]: "length (memset_from n xs) = length xs"
  by (simp add: memset_from_def)

lemma take_memset_from: "k \<le> n \<Longrightarrow> take k (memset_from n xs) = take k xs"
  by (simp add: memset_from_def min_def)

lemma realloc_stack_null:
  assumes blk: "items stk = 0 \<or> h (items stk) \<noteq> None"
    and c: "0 < unat c'" "unat c' \<le> 2 ^ 61"
    and r: "addr r = 0 \<or> 2 ^ 61 \<le> unat c'"
  shows "realloc_stack cfg h stk c' r = Returns (h, 0)"
proof -
  from request_bounds [OF c(2), of cfg] c(1) r
  have "unat (request cfg c') \<noteq> 0" "addr r = 0 \<or> PTRDIFF_MAX < unat (request cfg c')"
    by (auto simp: PTRDIFF_MAX_def)
  then have "realloc h (items stk) (unat (request cfg c')) r = Returns (h, 0)"
    using blk by (auto simp: realloc_def)
  then show ?thesis by (simp add: realloc_stack_def request_def Let_def)
qed

text \<open>With \<^verbatim>\<open>CANARY_PROTECT\<close>, \<^verbatim>\<open>realloc_stack\<close> returns only the null pointer: after
  a call of \<^verbatim>\<open>realloc\<close> that did not fail it stores the left guard word before the
  block.\<close>

lemma store_canary_left [simp]: "store_canary h p left_canary_off v = Fault"
  by (simp add: store_canary_def left_canary_off_def split: option.splits)

lemma realloc_stack_canary:
  assumes "canary_protect cfg" and "realloc_stack cfg h stk c' r = Returns (h1, p)"
  shows "p = 0 \<and> h1 = h"
  using assms
  by (auto simp: realloc_stack_def realloc_def Let_def
      split: outcome.splits if_splits option.splits)

lemma realloc_stack_ok:
  assumes nc: "\<not> canary_protect cfg"
    and blk: "items stk \<noteq> 0" "h (items stk) = Some b"
    and r: "addr r \<noteq> 0"
    and c: "0 < unat c'" "unat c' \<le> 2 ^ 60"
    and sz: "unat (size_stk stk) \<le> unat c'" "unat (size_stk stk) \<le> length (cells b)"
  shows "\<exists>b'. realloc_stack cfg h stk c' r = Returns ((h(items stk := None))(addr r \<mapsto> b'), addr r) \<and>
           length (cells b') = unat c' \<and>
           take (unat (size_stk stk)) (cells b') = take (unat (size_stk stk)) (cells b)"
proof -
  let ?bytes = "c' * sizeof_item_t"
  let ?new = "map (\<lambda>i. if i < length (cells b) then cells b ! i else junk r i) [0..<unat c']"
  have c61: "unat c' \<le> 2 ^ 61" using c(2) by simp
  have u0: "unat ?bytes = 4 * unat c'" using c61 by (rule unat_times4)
  have big: "\<not> unat ?bytes < unat (size_stk stk) * 4" using u0 sz(1) by simp
  have nz: "unat ?bytes \<noteq> 0" using u0 c(1) by simp
  have fits: "\<not> PTRDIFF_MAX < unat ?bytes" using u0 c(2) by (simp add: PTRDIFF_MAX_def)
  have ra: "realloc h (items stk) (unat ?bytes) r =
      Returns ((h(items stk := None))(addr r \<mapsto> \<lparr>cells = ?new\<rparr>), addr r)"
    using blk r nz fits by (simp add: realloc_def block_at_def u0 Let_def)
  have tk: "take (unat (size_stk stk)) (memset_from (unat (size_stk stk)) ?new) =
      take (unat (size_stk stk)) (cells b)"
    using sz by (auto simp: take_memset_from list_eq_iff_nth_eq)
  let ?b' = "\<lparr>cells = memset_from (unat (size_stk stk)) ?new\<rparr>"
  have "realloc_stack cfg h stk c' r =
      Returns ((h(items stk := None))(addr r \<mapsto> ?b'), addr r)"
    using ra r big nc by (simp add: realloc_stack_def block_at_def Let_def)
  moreover have "length (cells ?b') = unat c'" by simp
  moreover have "take (unat (size_stk stk)) (cells ?b') = take (unat (size_stk stk)) (cells b)"
    using tk by simp
  ultimately show ?thesis by blast
qed

text \<open>The invariant without the stored hash: the build has no \<^verbatim>\<open>CANARY_PROTECT\<close>, the
  buffer pointer addresses a block of \<open>capacity\<close> items, the size is within the
  capacity, and above the initial capacity the stack is more than a quarter full.\<close>

definition stack_inv0 :: "config \<Rightarrow> heap \<Rightarrow> stack_t \<Rightarrow> bool" where
  "stack_inv0 cfg h stk =
     (\<not> canary_protect cfg \<and> items stk \<noteq> 0 \<and> cap_ok (capacity stk) \<and>
      unat (size_stk stk) \<le> unat (capacity stk) \<and>
      (8 < unat (capacity stk) \<longrightarrow> unat (capacity stk) div 4 + 1 \<le> unat (size_stk stk)) \<and>
      (case h (items stk) of
         None \<Rightarrow> False
       | Some b \<Rightarrow> length (cells b) = unat (capacity stk)))"

definition stack_inv :: "config \<Rightarrow> heap \<Rightarrow> stack_t \<Rightarrow> bool" where
  "stack_inv cfg h stk =
     (stack_inv0 cfg h stk \<and>
      (hash_protect cfg \<longrightarrow> hash_stack cfg h stk = Returns (hash stk, stk)))"

lemma stack_inv0_hash_upd [simp]: "stack_inv0 cfg h (stk\<lparr>hash := x\<rparr>) = stack_inv0 cfg h stk"
  by (simp add: stack_inv0_def split: option.splits)

lemma hash_stack_hash_upd:
  "hash_stack cfg h stk = Returns (hv, stk') \<Longrightarrow>
   hash_stack cfg h (stk\<lparr>hash := x\<rparr>) = Returns (hv, stk\<lparr>hash := x\<rparr>)"
  by (auto simp: hash_stack_def Let_def split: outcome.splits)

lemma hash_stack_defined:
  assumes "stack_inv0 cfg h stk"
  shows "\<exists>hv. hash_stack cfg h stk = Returns (hv, stk)"
proof -
  from assms obtain b where b: "h (items stk) = Some b" "length (cells b) = unat (capacity stk)"
    and nz: "items stk \<noteq> 0" and c: "cap_ok (capacity stk)"
    by (auto simp: stack_inv0_def split: option.splits)
  have "items_in_bytes (capacity stk) = unat (capacity stk)"
    using cap_ok_bounds [OF c] by (simp add: items_in_bytes_small)
  then show ?thesis using b nz
    by (simp add: hash_stack_def load_items_def block_at_def Let_def)
qed

lemma verify_stack_inv:
  assumes "stack_inv cfg h stk"
  shows "verify_stack cfg h stk = Returns ({}, stk)"
proof -
  from assms have i0: "stack_inv0 cfg h stk"
    and hs: "hash_protect cfg \<longrightarrow> hash_stack cfg h stk = Returns (hash stk, stk)"
    by (simp_all add: stack_inv_def)
  from i0 have nc: "\<not> canary_protect cfg"
    and nz: "items stk \<noteq> 0" and c: "cap_ok (capacity stk)"
    and sz: "unat (size_stk stk) \<le> unat (capacity stk)"
    by (auto simp: stack_inv0_def)
  have rng: "\<not> capacity stk > CAP_MAX" "\<not> capacity stk < INIT_CAP"
    using cap_ok_range [OF c] by simp_all
  have szw: "\<not> size_stk stk > capacity stk" using sz by (simp add: word_less_nat_alt)
  have hp: "hash_protect cfg \<Longrightarrow> verify_stack_hash cfg h stk = Returns ({}, stk)"
    using hs nz by (simp add: verify_stack_hash_def)
  show ?thesis
    using rng szw nc hp by (simp add: verify_stack_def Let_def)
qed

lemma checked_verify_inv:
  "stack_inv cfg h stk \<Longrightarrow> checked_verify cfg h stk = Returns (Vrf {}, stk)"
  by (simp add: checked_verify_def verify_stack_inv)

lemma stack_inv_holds_capacity: "stack_inv cfg h stk \<Longrightarrow> holds_capacity h stk"
  by (auto simp: stack_inv_def stack_inv0_def holds_capacity_def split: option.splits)

lemma at_finally_inv:
  assumes "stack_inv cfg (heap_of res) (stk_of res)"
  shows "at_finally cfg res = Returns res"
  using dump_stack_verified [OF verify_stack_inv [OF assms] stack_inv_holds_capacity [OF assms]]
  by (rule at_finally_dumped)

lemma refresh_and_verify_inv0:
  assumes "stack_inv0 cfg h stk"
  shows "\<exists>stk'. refresh_and_verify cfg h stk = Returns (Vrf {}, stk') \<and> stack_inv cfg h stk' \<and>
           items stk' = items stk \<and> capacity stk' = capacity stk \<and> size_stk stk' = size_stk stk"
proof (cases "hash_protect cfg")
  case False
  then have i: "stack_inv cfg h stk" using assms by (simp add: stack_inv_def)
  then show ?thesis using False
    by (simp add: refresh_and_verify_def refresh_hash_def checked_verify_inv)
next
  case True
  from hash_stack_defined [OF assms] obtain hv where hv: "hash_stack cfg h stk = Returns (hv, stk)"
    by blast
  let ?stk = "stk\<lparr>hash := hv\<rparr>"
  have "hash_stack cfg h ?stk = Returns (hv, ?stk)" using hv by (rule hash_stack_hash_upd)
  then have i: "stack_inv cfg h ?stk" using assms by (simp add: stack_inv_def)
  have "refresh_and_verify cfg h stk = Returns (Vrf {}, ?stk)"
    using True hv checked_verify_inv [OF i] by (simp add: refresh_and_verify_def refresh_hash_def)
  then show ?thesis using i by auto
qed


text \<open>The items a stack holds, the bottom first.\<close>

definition contents :: "heap \<Rightarrow> stack_t \<Rightarrow> item_t list" where
  "contents h stk =
     (case h (items stk) of None \<Rightarrow> [] | Some b \<Rightarrow> take (unat (size_stk stk)) (cells b))"

lemma shrinkable_nat:
  "shrinkable stk \<longleftrightarrow>
     unat (size_stk stk) \<le> unat (capacity stk) div 4 + 1 \<and> 8 < unat (capacity stk)"
  by (simp add: shrinkable_def word_le_nat_alt word_less_nat_alt unat_quarter_plus1 INIT_CAP_def)

lemma expandable_nat: "expandable stk \<longleftrightarrow> unat (capacity stk) = unat (size_stk stk)"
  by (simp add: expandable_def word_unat_eq_iff)

lemma unat_succ: "unat w < unat c \<Longrightarrow> unat (w + 1) = unat w + 1" for w c :: size_t
proof -
  assume "unat w < unat c"
  moreover have "unat c < 2 ^ 64" using unsigned_less [of c] by simp
  ultimately have "unat w + 1 < 2 ^ 64" by simp
  then show ?thesis by (simp add: unat_word_ariths)
qed

lemma unat_pred: "w \<noteq> 0 \<Longrightarrow> unat (w - 1) = unat w - 1 \<and> 0 < unat w" for w :: size_t
  by (simp add: unat_minus_one unat_gt_0)

lemma push_no_growth:
  assumes inv: "stack_inv cfg h stk" and ne: "\<not> expandable stk"
  shows "\<exists>res. push_stack cfg h stk x r = Returns res \<and> err_of res = Vrf {} \<and>
           stack_inv cfg (heap_of res) (stk_of res) \<and>
           capacity (stk_of res) = capacity stk \<and>
           unat (size_stk (stk_of res)) = unat (size_stk stk) + 1 \<and>
           contents (heap_of res) (stk_of res) = contents h stk @ [x]"
proof -
  from inv have i0: "stack_inv0 cfg h stk" by (simp add: stack_inv_def)
  then obtain b where b: "h (items stk) = Some b" "length (cells b) = unat (capacity stk)"
    and nz: "items stk \<noteq> 0" and c: "cap_ok (capacity stk)"
    and sz: "unat (size_stk stk) \<le> unat (capacity stk)"
    and hy: "8 < unat (capacity stk) \<longrightarrow> unat (capacity stk) div 4 + 1 \<le> unat (size_stk stk)"
    and nc: "\<not> canary_protect cfg"
    by (auto simp: stack_inv0_def split: option.splits)
  have lt: "unat (size_stk stk) < unat (capacity stk)"
    using sz ne by (simp add: expandable_nat)
  have s1: "unat (size_stk stk + 1) = unat (size_stk stk) + 1" using lt by (rule unat_succ)
  let ?b = "b\<lparr>cells := (cells b)[unat (size_stk stk) := x]\<rparr>"
  let ?h = "h(items stk \<mapsto> ?b)"
  let ?stk = "stk\<lparr>size_stk := size_stk stk + 1\<rparr>"
  have st: "store_item h (items stk) (unat (size_stk stk)) x = Returns ?h"
    using b nz lt by (simp add: store_item_def block_at_def)
  have hy': "8 < unat (capacity stk) \<longrightarrow>
      unat (capacity stk) div 4 + 1 \<le> unat (size_stk stk) + 1"
    using hy by auto
  have i0': "stack_inv0 cfg ?h ?stk"
    using b nc nz c lt hy' s1 by (simp add: stack_inv0_def)
  from refresh_and_verify_inv0 [OF i0'] obtain stk' where
    rv: "refresh_and_verify cfg ?h ?stk = Returns (Vrf {}, stk')" and i': "stack_inv cfg ?h stk'"
    and f: "items stk' = items stk" "capacity stk' = capacity stk"
      "size_stk stk' = size_stk stk + 1"
    by auto
  have p: "push_stack cfg h stk x r =
      Returns \<lparr>heap_of = ?h, stk_of = stk', err_of = Vrf {}, ret_of = ()\<rparr>"
    using checked_verify_inv [OF inv] ne st rv by (simp add: push_stack_def is_err_def)
  have ct: "contents ?h stk' = contents h stk @ [x]"
    using b lt f s1 by (simp add: contents_def take_Suc_conv_app_nth)
  show ?thesis using p i' f s1 ct by simp
qed

lemma push_alloc_fails:
  assumes inv: "stack_inv cfg h stk" and ex: "expandable stk"
    and r: "addr r = 0 \<or> \<not> unat (capacity stk) < 2 ^ 60"
  shows "push_stack cfg h stk x r =
           Returns \<lparr>heap_of = h, stk_of = stk, err_of = STK_BAD_ALLOC, ret_of = ()\<rparr>"
proof -
  from inv have blk: "items stk = 0 \<or> h (items stk) \<noteq> None"
    and c: "cap_ok (capacity stk)"
    by (auto simp: stack_inv_def stack_inv0_def split: option.splits)
  let ?c = "capacity stk * CAP_FACTOR"
  have "unat (capacity stk) < 2 ^ 61" using cap_ok_bounds [OF c] by simp
  then have u: "unat ?c = 2 * unat (capacity stk)" by (rule unat_double)
  have c': "0 < unat ?c" "unat ?c \<le> 2 ^ 61" "addr r = 0 \<or> 2 ^ 61 \<le> unat ?c"
    using u cap_ok_bounds [OF c] r by auto
  have "realloc_stack cfg h stk ?c r = Returns (h, 0)"
    using blk c' by (rule realloc_stack_null)
  then show ?thesis
    using checked_verify_inv [OF inv] ex at_finally_inv [of cfg
        "\<lparr>heap_of = h, stk_of = stk, err_of = STK_BAD_ALLOC, ret_of = ()\<rparr>"] inv
    by (simp add: push_stack_def is_err_def)
qed

lemma push_growth:
  assumes inv: "stack_inv cfg h stk" and ex: "expandable stk" and r: "addr r \<noteq> 0"
    and small: "unat (capacity stk) < 2 ^ 60"
  shows "\<exists>res. push_stack cfg h stk x r = Returns res \<and> err_of res = Vrf {} \<and>
           stack_inv cfg (heap_of res) (stk_of res) \<and>
           capacity (stk_of res) = capacity stk * CAP_FACTOR \<and>
           unat (capacity (stk_of res)) = 2 * unat (capacity stk) \<and>
           unat (size_stk (stk_of res)) = unat (size_stk stk) + 1 \<and>
           contents (heap_of res) (stk_of res) = contents h stk @ [x]"
proof -
  from inv have i0: "stack_inv0 cfg h stk" by (simp add: stack_inv_def)
  then obtain b where b: "h (items stk) = Some b" "length (cells b) = unat (capacity stk)"
    and nz: "items stk \<noteq> 0" and c: "cap_ok (capacity stk)"
    and sz: "unat (size_stk stk) \<le> unat (capacity stk)"
    and nc: "\<not> canary_protect cfg"
    by (auto simp: stack_inv0_def split: option.splits)
  let ?c = "capacity stk * CAP_FACTOR"
  have eq: "unat (capacity stk) = unat (size_stk stk)" using ex by (simp add: expandable_nat)
  have c': "cap_ok ?c" using c small by (rule cap_ok_double)
  have "unat (capacity stk) < 2 ^ 61" using small by simp
  then have u: "unat ?c = 2 * unat (capacity stk)" by (rule unat_double)
  have cb: "0 < unat ?c" "unat ?c \<le> 2 ^ 60" using cap_ok_bounds [OF c'] by simp_all
  have sz': "unat (size_stk stk) \<le> unat ?c" "unat (size_stk stk) \<le> length (cells b)"
    using sz b(2) u by simp_all
  from realloc_stack_ok [where stk = stk and h = h and b = b and r = r and c' = ?c
      and cfg = cfg, OF nc nz b(1) r cb sz']
  obtain b' where
    ra: "realloc_stack cfg h stk ?c r = Returns ((h(items stk := None))(addr r \<mapsto> b'), addr r)"
    and len: "length (cells b') = unat ?c"
    and tk: "take (unat (size_stk stk)) (cells b') = take (unat (size_stk stk)) (cells b)"
    by auto
  let ?h1 = "(h(items stk := None))(addr r \<mapsto> b')"
  let ?stk1 = "stk\<lparr>capacity := ?c, items := addr r\<rparr>"
  have lt: "unat (size_stk stk) < unat ?c" using u eq cap_ok_bounds [OF c] by simp
  have s1: "unat (size_stk stk + 1) = unat (size_stk stk) + 1" using lt by (rule unat_succ)
  let ?b = "b'\<lparr>cells := (cells b')[unat (size_stk stk) := x]\<rparr>"
  let ?h = "?h1(addr r \<mapsto> ?b)"
  let ?stk = "?stk1\<lparr>size_stk := size_stk stk + 1\<rparr>"
  have st: "store_item ?h1 (items ?stk1) (unat (size_stk ?stk1)) x = Returns ?h"
    using r len lt by (simp add: store_item_def block_at_def)
  have hy': "8 < unat ?c \<longrightarrow> unat ?c div 4 + 1 \<le> unat (size_stk stk) + 1"
    using u eq by auto
  have le': "unat (size_stk stk) + 1 \<le> unat ?c" using lt by simp
  have i0': "stack_inv0 cfg ?h ?stk"
    using r nc c' len s1 hy' le' by (simp add: stack_inv0_def)
  from refresh_and_verify_inv0 [OF i0'] obtain stk' where
    rv: "refresh_and_verify cfg ?h ?stk = Returns (Vrf {}, stk')" and i': "stack_inv cfg ?h stk'"
    and f: "items stk' = addr r" "capacity stk' = ?c" "size_stk stk' = size_stk stk + 1"
    by auto
  have p: "push_stack cfg h stk x r =
      Returns \<lparr>heap_of = ?h, stk_of = stk', err_of = Vrf {}, ret_of = ()\<rparr>"
    using checked_verify_inv [OF inv] ex ra r st rv
    by (simp add: push_stack_def is_err_def Let_def)
  have "take (unat (size_stk stk)) (cells b') @ [x] = take (unat (size_stk stk)) (cells b) @ [x]"
    using tk by simp
  then have ct: "contents ?h stk' = contents h stk @ [x]"
    using b lt len f s1 by (simp add: contents_def take_Suc_conv_app_nth)
  show ?thesis using p i' f s1 ct u by simp
qed


lemma last_take: "0 < n \<Longrightarrow> n \<le> length xs \<Longrightarrow> last (take n xs) = xs ! (n - 1)"
proof -
  assume a: "0 < n" "n \<le> length xs"
  then have "take n xs \<noteq> []" by auto
  then have "last (take n xs) = take n xs ! (length (take n xs) - 1)" by (rule last_conv_nth)
  then show ?thesis using a by (simp add: min_def)
qed

lemma pop_empty_inv:
  assumes inv: "stack_inv cfg h stk" and e: "size_stk stk = 0"
  shows "pop_stack cfg h stk r =
           Returns \<lparr>heap_of = h, stk_of = stk, err_of = STK_EMPTY_POP, ret_of = POISON\<rparr>"
  using checked_verify_inv [OF inv] e at_finally_inv [of cfg
      "\<lparr>heap_of = h, stk_of = stk, err_of = STK_EMPTY_POP, ret_of = POISON\<rparr>"] inv
  by (simp add: pop_stack_def is_err_def ucast_scast_item)

lemma pop_no_shrink:
  assumes inv: "stack_inv cfg h stk" and ne: "size_stk stk \<noteq> 0" and ns: "\<not> shrinkable stk"
  shows "\<exists>res. pop_stack cfg h stk r = Returns res \<and> err_of res = Vrf {} \<and>
           stack_inv cfg (heap_of res) (stk_of res) \<and>
           capacity (stk_of res) = capacity stk \<and>
           unat (size_stk (stk_of res)) = unat (size_stk stk) - 1 \<and>
           ret_of res = last (contents h stk) \<and>
           contents (heap_of res) (stk_of res) = butlast (contents h stk)"
proof -
  from inv have i0: "stack_inv0 cfg h stk" by (simp add: stack_inv_def)
  then obtain b where b: "h (items stk) = Some b" "length (cells b) = unat (capacity stk)"
    and nz: "items stk \<noteq> 0" and c: "cap_ok (capacity stk)"
    and sz: "unat (size_stk stk) \<le> unat (capacity stk)"
    and nc: "\<not> canary_protect cfg"
    by (auto simp: stack_inv0_def split: option.splits)
  have s1: "unat (size_stk stk - 1) = unat (size_stk stk) - 1" and pos: "0 < unat (size_stk stk)"
    using unat_pred [OF ne] by simp_all
  let ?n = "unat (size_stk stk) - 1"
  have lt: "?n < length (cells b)" using pos sz b(2) by simp
  let ?b = "b\<lparr>cells := (cells b)[?n := POISON]\<rparr>"
  let ?h = "h(items stk \<mapsto> ?b)"
  let ?stk = "stk\<lparr>size_stk := size_stk stk - 1\<rparr>"
  have ld: "load_item h (items ?stk) (unat (size_stk ?stk)) = Returns (cells b ! ?n)"
    using b nz lt s1 by (simp add: load_item_def block_at_def)
  have st: "store_item h (items ?stk) (unat (size_stk ?stk)) POISON = Returns ?h"
    using b nz lt s1 by (simp add: store_item_def block_at_def)
  have hy': "8 < unat (capacity stk) \<longrightarrow> unat (capacity stk) div 4 + 1 \<le> ?n"
    using ns by (auto simp: shrinkable_nat)
  have le': "?n \<le> unat (capacity stk)" using sz by simp
  have i0': "stack_inv0 cfg ?h ?stk"
    using b nc nz c hy' le' s1 by (simp add: stack_inv0_def)
  from refresh_and_verify_inv0 [OF i0'] obtain stk' where
    rv: "refresh_and_verify cfg ?h ?stk = Returns (Vrf {}, stk')" and i': "stack_inv cfg ?h stk'"
    and f: "items stk' = items stk" "capacity stk' = capacity stk"
      "size_stk stk' = size_stk stk - 1"
    by auto
  have p: "pop_stack cfg h stk r =
      Returns \<lparr>heap_of = ?h, stk_of = stk', err_of = Vrf {}, ret_of = cells b ! ?n\<rparr>"
    using checked_verify_inv [OF inv] ne ns ld st rv
    by (simp add: pop_stack_def is_err_def Let_def ucast_scast_item)
  have len: "length (take (unat (size_stk stk)) (cells b)) = unat (size_stk stk)"
    using sz b(2) by simp
  have la: "last (contents h stk) = cells b ! ?n"
    using b pos sz by (simp add: contents_def last_take)
  have ct: "contents ?h stk' = butlast (contents h stk)"
    using b f s1 pos sz by (simp add: contents_def butlast_take)
  show ?thesis using p i' f s1 la ct by simp
qed

lemma pop_alloc_fails:
  assumes inv: "stack_inv cfg h stk" and sh: "shrinkable stk" and r: "addr r = 0"
  shows "pop_stack cfg h stk r =
           Returns \<lparr>heap_of = h, stk_of = stk, err_of = STK_BAD_ALLOC, ret_of = POISON\<rparr>"
proof -
  from inv have i0: "stack_inv0 cfg h stk" by (simp add: stack_inv_def)
  then have blk: "h (items stk) \<noteq> None"
    and hy: "8 < unat (capacity stk) \<longrightarrow> unat (capacity stk) div 4 + 1 \<le> unat (size_stk stk)"
    by (auto simp: stack_inv0_def split: option.splits)
  have "unat (size_stk stk) \<noteq> 0" using hy sh by (auto simp: shrinkable_nat)
  then have ne: "size_stk stk \<noteq> 0" by auto
  from inv have c: "cap_ok (capacity stk)" by (simp add: stack_inv_def stack_inv0_def)
  from sh have "8 < unat (capacity stk)" by (simp add: shrinkable_nat)
  with c have "cap_ok (capacity stk div CAP_FACTOR)" by (rule cap_ok_half)
  from cap_ok_bounds [OF this]
  have c': "0 < unat (capacity stk div CAP_FACTOR)" "unat (capacity stk div CAP_FACTOR) \<le> 2 ^ 61"
    by simp_all
  have "realloc_stack cfg h stk (capacity stk div CAP_FACTOR) r = Returns (h, 0)"
    using blk r c' by (simp add: realloc_stack_null)
  then show ?thesis
    using checked_verify_inv [OF inv] sh ne at_finally_inv [of cfg
        "\<lparr>heap_of = h, stk_of = stk, err_of = STK_BAD_ALLOC, ret_of = POISON\<rparr>"] inv
    by (simp add: pop_stack_def is_err_def ucast_scast_item)
qed

lemma pop_shrink:
  assumes inv: "stack_inv cfg h stk" and sh: "shrinkable stk" and r: "addr r \<noteq> 0"
  shows "\<exists>res. pop_stack cfg h stk r = Returns res \<and> err_of res = Vrf {} \<and>
           stack_inv cfg (heap_of res) (stk_of res) \<and>
           capacity (stk_of res) = capacity stk div CAP_FACTOR \<and>
           unat (capacity (stk_of res)) = unat (capacity stk) div 2 \<and>
           unat (size_stk (stk_of res)) = unat (size_stk stk) - 1 \<and>
           ret_of res = last (contents h stk) \<and>
           contents (heap_of res) (stk_of res) = butlast (contents h stk)"
proof -
  from inv have i0: "stack_inv0 cfg h stk" by (simp add: stack_inv_def)
  then obtain b where b: "h (items stk) = Some b" "length (cells b) = unat (capacity stk)"
    and nz: "items stk \<noteq> 0" and c: "cap_ok (capacity stk)"
    and sz: "unat (size_stk stk) \<le> unat (capacity stk)"
    and hy: "8 < unat (capacity stk) \<longrightarrow> unat (capacity stk) div 4 + 1 \<le> unat (size_stk stk)"
    and nc: "\<not> canary_protect cfg"
    by (auto simp: stack_inv0_def split: option.splits)
  from sh have big: "8 < unat (capacity stk)"
    and sm: "unat (size_stk stk) \<le> unat (capacity stk) div 4 + 1"
    by (simp_all add: shrinkable_nat)
  from c obtain k where k: "unat (capacity stk) = 8 * 2 ^ k" by (auto simp: cap_ok_def)
  from big k obtain j where j: "k = Suc j" by (cases k) auto
  define m :: nat where "m = 2 ^ j"
  have m: "unat (capacity stk) = 16 * m" "1 \<le> m" using k j by (simp_all add: m_def)
  have sq: "unat (size_stk stk) = 4 * m + 1" using hy sm big m by simp
  then have "unat (size_stk stk) \<noteq> 0" by simp
  then have ne: "size_stk stk \<noteq> 0" by auto
  have s1: "unat (size_stk stk - 1) = unat (size_stk stk) - 1"
    using unat_pred [OF ne] by simp
  let ?c = "capacity stk div CAP_FACTOR"
  have c': "cap_ok ?c" using c big by (rule cap_ok_half)
  have u: "unat ?c = 8 * m" using m by (simp add: unat_half)
  have cb: "0 < unat ?c" "unat ?c \<le> 2 ^ 60" using cap_ok_bounds [OF c'] by simp_all
  have sz': "unat (size_stk stk) \<le> unat ?c" "unat (size_stk stk) \<le> length (cells b)"
    using sq u m b(2) by simp_all
  from realloc_stack_ok [where stk = stk and h = h and b = b and r = r and c' = ?c
      and cfg = cfg, OF nc nz b(1) r cb sz']
  obtain b' where
    ra: "realloc_stack cfg h stk ?c r = Returns ((h(items stk := None))(addr r \<mapsto> b'), addr r)"
    and len: "length (cells b') = unat ?c"
    and tk: "take (unat (size_stk stk)) (cells b') = take (unat (size_stk stk)) (cells b)"
    by auto
  let ?h1 = "(h(items stk := None))(addr r \<mapsto> b')"
  let ?stk1 = "stk\<lparr>items := addr r, capacity := ?c\<rparr>"
  let ?n = "unat (size_stk stk) - 1"
  have lt: "?n < length (cells b')" using sq u len m(2) by simp
  let ?b = "b'\<lparr>cells := (cells b')[?n := POISON]\<rparr>"
  let ?h = "?h1(addr r \<mapsto> ?b)"
  let ?stk = "?stk1\<lparr>size_stk := size_stk stk - 1\<rparr>"
  have ld: "load_item ?h1 (items ?stk) (unat (size_stk ?stk)) = Returns (cells b' ! ?n)"
    using r lt s1 by (simp add: load_item_def block_at_def)
  have st: "store_item ?h1 (items ?stk) (unat (size_stk ?stk)) POISON = Returns ?h"
    using r lt s1 by (simp add: store_item_def block_at_def)
  have hy': "8 < unat ?c \<longrightarrow> unat ?c div 4 + 1 \<le> ?n" using sq u by auto
  have le': "?n \<le> unat ?c" using sq u by simp
  have i0': "stack_inv0 cfg ?h ?stk"
    using r nc c' len s1 hy' le' by (simp add: stack_inv0_def)
  from refresh_and_verify_inv0 [OF i0'] obtain stk' where
    rv: "refresh_and_verify cfg ?h ?stk = Returns (Vrf {}, stk')" and i': "stack_inv cfg ?h stk'"
    and f: "items stk' = addr r" "capacity stk' = ?c" "size_stk stk' = size_stk stk - 1"
    by auto
  have p: "pop_stack cfg h stk r =
      Returns \<lparr>heap_of = ?h, stk_of = stk', err_of = Vrf {}, ret_of = cells b' ! ?n\<rparr>"
    using checked_verify_inv [OF inv] ne sh ra r ld st rv
    by (simp add: pop_stack_def is_err_def Let_def ucast_scast_item)
  have pos: "0 < unat (size_stk stk)" using sq by simp
  have "take (unat (size_stk stk)) (cells b') ! ?n = take (unat (size_stk stk)) (cells b) ! ?n"
    using tk by simp
  then have nth: "cells b' ! ?n = cells b ! ?n" using pos by simp
  have len0: "length (take (unat (size_stk stk)) (cells b)) = unat (size_stk stk)"
    using sz b(2) by simp
  have la: "last (contents h stk) = cells b ! ?n"
    using b pos sz by (simp add: contents_def last_take)
  have "take ?n (take (unat (size_stk stk)) (cells b')) =
      take ?n (take (unat (size_stk stk)) (cells b))"
    using tk by simp
  then have tk': "take ?n (cells b') = take ?n (cells b)" by (simp add: min_def)
  have ct: "contents ?h stk' = butlast (contents h stk)"
    using b f s1 pos sz tk' by (simp add: contents_def butlast_take)
  have u2: "unat ?c = unat (capacity stk) div 2" by (rule unat_half)
  show ?thesis using p i' f s1 la ct nth u2 by simp
qed


lemma cap_ok_init: "cap_ok INIT_CAP"
  unfolding cap_ok_def INIT_CAP_def by (rule exI [of _ 0]) simp

lemma realloc_stack_init:
  assumes "realloc_stack cfg h stk INIT_CAP r = Returns (h1, p)" and "p \<noteq> 0"
  shows "\<not> canary_protect cfg \<and> (\<exists>b'. h1 p = Some b' \<and> length (cells b') = 8)"
proof -
  from assms have nc: "\<not> canary_protect cfg" using realloc_stack_canary by blast
  then show ?thesis using assms
    by (auto simp: realloc_stack_def realloc_def block_at_def INIT_CAP_def sizeof_item_t_def
        Let_def PTRDIFF_MAX_def split: if_splits)
qed

lemma construct_success:
  assumes "construct_stack cfg h stk r = Returns res" and "\<not> is_err (err_of res)"
  shows "stack_inv cfg (heap_of res) (stk_of res) \<and> capacity (stk_of res) = INIT_CAP \<and>
         size_stk (stk_of res) = 0 \<and> ret_of res"
proof -
  let ?e = "if UNPROTECT cfg then {} else verify_empty_stack cfg stk"
  have e: "?e = {}"
    using assms
    by (auto simp: construct_stack_def is_err_def Let_def split: if_splits
        dest!: at_finally_Returns)
  from assms e obtain h1 p where ra: "realloc_stack cfg h stk INIT_CAP r = Returns (h1, p)"
    by (cases "realloc_stack cfg h stk INIT_CAP r") (auto simp: construct_stack_def Let_def)
  have p: "p \<noteq> 0"
    using assms e ra
    by (auto simp: construct_stack_def is_err_def Let_def split: if_splits
        dest!: at_finally_Returns)
  from realloc_stack_init [OF ra p] obtain b' where b': "h1 p = Some b'" "length (cells b') = 8"
    and nc: "\<not> canary_protect cfg"
    by blast
  let ?stk1 = "stk\<lparr>capacity := INIT_CAP, items := p, size_stk := 0\<rparr>"
  let ?stk2 = "if canary_protect cfg
               then ?stk1\<lparr>left_canary := CANARY cfg, right_canary := CANARY cfg\<rparr> else ?stk1"
  have i0: "stack_inv0 cfg h1 ?stk2"
    using p b' nc cap_ok_init by (simp add: stack_inv0_def INIT_CAP_def)
  from refresh_and_verify_inv0 [OF i0] obtain stk' where
    rv: "refresh_and_verify cfg h1 ?stk2 = Returns (Vrf {}, stk')" and i': "stack_inv cfg h1 stk'"
    and f: "capacity stk' = capacity ?stk2" "size_stk stk' = size_stk ?stk2"
    by auto
  have "construct_stack cfg h stk r =
      Returns \<lparr>heap_of = h1, stk_of = stk', err_of = Vrf {}, ret_of = True\<rparr>"
    using e ra p rv by (simp add: construct_stack_def is_err_def Let_def)
  with assms(1) have "res = \<lparr>heap_of = h1, stk_of = stk', err_of = Vrf {}, ret_of = True\<rparr>"
    by simp
  then show ?thesis using i' f by simp
qed

text \<open>A live stack: what a successful construct made, and whatever push and pop make
  of a live stack, with any answers of the allocator and whether or not they report an
  error.\<close>

inductive live :: "config \<Rightarrow> heap \<Rightarrow> stack_t \<Rightarrow> bool" for cfg :: config where
  constructed:
    "construct_stack cfg h stk r = Returns res \<Longrightarrow> \<not> is_err (err_of res) \<Longrightarrow>
     live cfg (heap_of res) (stk_of res)"
| pushed:
    "live cfg h stk \<Longrightarrow> push_stack cfg h stk x r = Returns res \<Longrightarrow>
     live cfg (heap_of res) (stk_of res)"
| popped:
    "live cfg h stk \<Longrightarrow> pop_stack cfg h stk r = Returns res \<Longrightarrow>
     live cfg (heap_of res) (stk_of res)"

lemma push_cases:
  assumes inv: "stack_inv cfg h stk" and p: "push_stack cfg h stk x r = Returns res"
  shows "(res = \<lparr>heap_of = h, stk_of = stk, err_of = STK_BAD_ALLOC, ret_of = ()\<rparr> \<and>
            expandable stk \<and> (addr r = 0 \<or> \<not> unat (capacity stk) < 2 ^ 60)) \<or>
         (err_of res = Vrf {} \<and> stack_inv cfg (heap_of res) (stk_of res) \<and>
            unat (size_stk (stk_of res)) = unat (size_stk stk) + 1 \<and>
            contents (heap_of res) (stk_of res) = contents h stk @ [x] \<and>
            (if expandable stk
             then capacity (stk_of res) = capacity stk * CAP_FACTOR \<and>
                  unat (capacity (stk_of res)) = 2 * unat (capacity stk)
             else capacity (stk_of res) = capacity stk))"
proof (cases "expandable stk")
  case False
  from push_no_growth [OF inv False, of x r] p show ?thesis using False by auto
next
  case ex: True
  show ?thesis
  proof (cases "addr r = 0 \<or> \<not> unat (capacity stk) < 2 ^ 60")
    case True
    from push_alloc_fails [OF inv ex True, of x] p show ?thesis using ex True by simp
  next
    case False
    then have r: "addr r \<noteq> 0" and small: "unat (capacity stk) < 2 ^ 60" by simp_all
    from push_growth [OF inv ex r small, of x] p show ?thesis using ex by auto
  qed
qed

lemma pop_cases:
  assumes inv: "stack_inv cfg h stk"
  shows "\<exists>res. pop_stack cfg h stk r = Returns res \<and>
           ((res = \<lparr>heap_of = h, stk_of = stk, err_of = STK_EMPTY_POP, ret_of = POISON\<rparr> \<and>
               size_stk stk = 0 \<and> \<not> shrinkable stk) \<or>
            (res = \<lparr>heap_of = h, stk_of = stk, err_of = STK_BAD_ALLOC, ret_of = POISON\<rparr> \<and>
               size_stk stk \<noteq> 0 \<and> shrinkable stk \<and> addr r = 0) \<or>
            (err_of res = Vrf {} \<and> stack_inv cfg (heap_of res) (stk_of res) \<and>
               size_stk stk \<noteq> 0 \<and> (shrinkable stk \<longrightarrow> addr r \<noteq> 0) \<and>
               unat (size_stk (stk_of res)) = unat (size_stk stk) - 1 \<and>
               ret_of res = last (contents h stk) \<and>
               contents (heap_of res) (stk_of res) = butlast (contents h stk) \<and>
               (if shrinkable stk
                then capacity (stk_of res) = capacity stk div CAP_FACTOR \<and>
                     unat (capacity (stk_of res)) = unat (capacity stk) div 2
                else capacity (stk_of res) = capacity stk)))"
proof -
  from inv have hy: "8 < unat (capacity stk) \<longrightarrow>
      unat (capacity stk) div 4 + 1 \<le> unat (size_stk stk)"
    by (simp add: stack_inv_def stack_inv0_def)
  have sne: "shrinkable stk \<Longrightarrow> size_stk stk \<noteq> 0"
  proof
    assume "shrinkable stk" "size_stk stk = 0"
    then show False using hy by (simp add: shrinkable_nat)
  qed
  show ?thesis
  proof (cases "shrinkable stk")
    case sh: True
    show ?thesis
    proof (cases "addr r = 0")
      case True
      from pop_alloc_fails [OF inv sh True] show ?thesis using sh True sne by simp
    next
      case False
      from pop_shrink [OF inv sh False] show ?thesis using sh False sne by auto
    qed
  next
    case ns: False
    show ?thesis
    proof (cases "size_stk stk = 0")
      case True
      from pop_empty_inv [OF inv True] show ?thesis using ns True by simp
    next
      case False
      from pop_no_shrink [OF inv False ns, of r] show ?thesis using ns False by auto
    qed
  qed
qed

lemma push_preserves:
  "stack_inv cfg h stk \<Longrightarrow> push_stack cfg h stk x r = Returns res \<Longrightarrow>
   stack_inv cfg (heap_of res) (stk_of res)"
  using push_cases [of cfg h stk x r res] by auto

lemma pop_preserves:
  "stack_inv cfg h stk \<Longrightarrow> pop_stack cfg h stk r = Returns res \<Longrightarrow>
   stack_inv cfg (heap_of res) (stk_of res)"
  using pop_cases [of cfg h stk r] by auto

lemma live_stack_inv: "live cfg h stk \<Longrightarrow> stack_inv cfg h stk"
proof (induction rule: live.induct)
  case (constructed h stk r res)
  then show ?case using construct_success by blast
next
  case (pushed h stk x r res)
  then show ?case using push_preserves by blast
next
  case (popped h stk r res)
  then show ?case using pop_preserves by blast
qed

text \<open>No build with \<^verbatim>\<open>CANARY_PROTECT\<close> has a live stack: a construct that returns there
  has set an error.\<close>

lemma live_no_canary: "live cfg h stk \<Longrightarrow> \<not> canary_protect cfg"
  using live_stack_inv by (auto simp: stack_inv_def stack_inv0_def)

lemma construct_canary:
  "canary_protect cfg \<Longrightarrow> construct_stack cfg h stk r = Returns res \<Longrightarrow> is_err (err_of res)"
  using construct_success [of cfg h stk r res] by (auto simp: stack_inv_def stack_inv0_def)

section \<open>Runs on concrete inputs\<close>

text \<open>The definitions to unfold when an operation is evaluated on a concrete input.\<close>

lemmas run_defs =
  construct_stack_def push_stack_def pop_stack_def destruct_stack_def
  at_finally_def log_dump_def dump_stack_def
  realloc_stack_def realloc_def PTRDIFF_MAX_def memset_from_def store_item_def load_item_def block_at_def
  refresh_and_verify_def refresh_hash_def checked_verify_def
  verify_stack_def verify_stack_canary_def verify_stack_hash_def verify_empty_stack_def
  hash_stack_def load_items_def items_in_bytes_def
  left_canary_at_def right_canary_at_def right_canary_off_def left_canary_off_def
  load_canary_def store_canary_def
  expandable_def shrinkable_def is_err_def
  hash_protect_def canary_protect_def
  INIT_CAP_def CAP_FACTOR_def CAP_MAX_value sizeof_item_t_def POISON_value
  get_poison_def FILL_BYTE_def
  guarded_cfg_def hashed_cfg_def plain_cfg_def unprotected_cfg_def sum_hash_def
  zero_stack_def empty_heap_def reply_at_def Let_def upt_rec

text \<open>A caller that pushes one item after the other, and one that pops one item after
  the other and collects what it gets. Each push and each pop comes with the answer the
  allocator gives should the operation reallocate. The run stops (\<open>None\<close>) at the first
  operation that sets an error or whose behaviour is undefined.\<close>

fun pushes ::
  "config \<Rightarrow> heap \<times> stack_t \<Rightarrow> (item_t \<times> reply) list \<Rightarrow> (heap \<times> stack_t) option" where
  "pushes cfg w [] = Some w"
| "pushes cfg w ((x, r) # xrs) =
     (case push_stack cfg (fst w) (snd w) x r of
        Fault \<Rightarrow> None
      | Returns res \<Rightarrow>
          if is_err (err_of res) then None else pushes cfg (heap_of res, stk_of res) xrs)"

fun pops ::
  "config \<Rightarrow> heap \<times> stack_t \<Rightarrow> reply list \<Rightarrow> (item_t list \<times> (heap \<times> stack_t)) option" where
  "pops cfg w [] = Some ([], w)"
| "pops cfg w (r # rs) =
     (case pop_stack cfg (fst w) (snd w) r of
        Fault \<Rightarrow> None
      | Returns res \<Rightarrow>
          if is_err (err_of res) then None
          else (case pops cfg (heap_of res, stk_of res) rs of
                  None \<Rightarrow> None
                | Some (vs, w') \<Rightarrow> Some (ret_of res # vs, w')))"

text \<open>States of a stack in the build with \<^verbatim>\<open>HASH_PROTECT\<close> only: after construct, after
  the pushes of 1 to 8, after the push of 9, and after four pops more. The allocator
  answers every \<^verbatim>\<open>realloc\<close> in place.\<close>

definition fresh_stack :: stack_t where
  "fresh_stack = \<lparr>items = 0x1000, capacity = 8, size_stk = 0, hash = 2880158624,
     left_canary = 0, right_canary = 0\<rparr>"

definition fresh_heap :: heap where
  "fresh_heap = empty_heap(0x1000 \<mapsto>
     \<lparr>cells = [0x75757575, 0x75757575, 0x75757575, 0x75757575,
               0x75757575, 0x75757575, 0x75757575, 0x75757575]\<rparr>)"

definition full_stack :: stack_t where
  "full_stack = \<lparr>items = 0x1000, capacity = 8, size_stk = 8, hash = 4148,
     left_canary = 0, right_canary = 0\<rparr>"

definition full_heap :: heap where
  "full_heap = empty_heap(0x1000 \<mapsto>
     \<lparr>cells = [1, 2, 3, 4, 5, 6, 7, 8]\<rparr>)"

definition five_stack :: stack_t where
  "five_stack = \<lparr>items = 0x1000, capacity = 16, size_stk = 5, hash = 202120193,
     left_canary = 0, right_canary = 0\<rparr>"

definition five_heap :: heap where
  "five_heap = empty_heap(0x1000 \<mapsto>
     \<lparr>cells = [1, 2, 3, 4, 5, 0x75757575, 0x75757575, 0x75757575, 0x75757575, 0x75757575,
               0x75757575, 0x75757575, 0x75757575, 0x75757575, 0x75757575, 0x75757575]\<rparr>)"

definition same_place :: "nat \<Rightarrow> reply list" where
  "same_place n = replicate n (reply_at 0x1000)"

lemma construct_fresh:
  "construct_stack hashed_cfg empty_heap zero_stack (reply_at 0x1000) =
     Returns \<lparr>heap_of = fresh_heap, stk_of = fresh_stack, err_of = Vrf {}, ret_of = True\<rparr>"
  by (simp add: run_defs fresh_stack_def fresh_heap_def)

lemma pushes_full:
  "pushes hashed_cfg (fresh_heap, fresh_stack)
     [(1, reply_at 0x1000), (2, reply_at 0x1000), (3, reply_at 0x1000), (4, reply_at 0x1000),
      (5, reply_at 0x1000), (6, reply_at 0x1000), (7, reply_at 0x1000), (8, reply_at 0x1000)] =
   Some (full_heap, full_stack)"
  by (simp add: run_defs fresh_stack_def fresh_heap_def full_stack_def full_heap_def)


definition nine_stack :: stack_t where
  "nine_stack = \<lparr>items = 0x1000, capacity = 16, size_stk = 9, hash = 909518459,
     left_canary = 0, right_canary = 0\<rparr>"

definition nine_heap :: heap where
  "nine_heap = empty_heap(0x1000 \<mapsto>
     \<lparr>cells = [1, 2, 3, 4, 5, 6, 7, 8, 9, 0x75757575,
               0x75757575, 0x75757575, 0x75757575, 0x75757575, 0x75757575, 0x75757575]\<rparr>)"

lemma pushes_nine:
  "pushes hashed_cfg (full_heap, full_stack) [(9, reply_at 0x1000)] =
     Some (nine_heap, nine_stack)"
  by (simp add: run_defs full_stack_def full_heap_def nine_stack_def nine_heap_def)

lemma pops_five:
  "pops hashed_cfg (nine_heap, nine_stack)
     [reply_at 0x1000, reply_at 0x1000, reply_at 0x1000, reply_at 0x1000] =
     Some ([9, 8, 7, 6], (five_heap, five_stack))"
  by (simp add: run_defs nine_stack_def nine_heap_def five_stack_def five_heap_def
      ucast_scast_item)

lemma live_pushes:
  "live cfg (fst w) (snd w) \<Longrightarrow> pushes cfg w xrs = Some w' \<Longrightarrow> live cfg (fst w') (snd w')"
proof (induction xrs arbitrary: w)
  case Nil
  then show ?case by simp
next
  case (Cons xr xrs)
  obtain x r where xr: "xr = (x, r)" by (cases xr)
  from Cons.prems(2) xr obtain res where
    p: "push_stack cfg (fst w) (snd w) x r = Returns res"
    and rest: "pushes cfg (heap_of res, stk_of res) xrs = Some w'"
    by (auto split: outcome.splits if_splits)
  from live.pushed [OF Cons.prems(1) p] have "live cfg (fst (heap_of res, stk_of res))
      (snd (heap_of res, stk_of res))" by simp
  from Cons.IH [OF this rest] show ?case .
qed

lemma live_pops:
  "live cfg (fst w) (snd w) \<Longrightarrow> pops cfg w rs = Some (vs, w') \<Longrightarrow>
   live cfg (fst w') (snd w')"
proof (induction rs arbitrary: w vs)
  case Nil
  then show ?case by simp
next
  case (Cons r rs)
  from Cons.prems(2) obtain res vs' where
    p: "pop_stack cfg (fst w) (snd w) r = Returns res"
    and rest: "pops cfg (heap_of res, stk_of res) rs = Some (vs', w')"
    by (auto split: outcome.splits if_splits option.splits)
  from live.popped [OF Cons.prems(1) p] have "live cfg (fst (heap_of res, stk_of res))
      (snd (heap_of res, stk_of res))" by simp
  from Cons.IH [OF this rest] show ?case .
qed

lemma live_fresh: "live hashed_cfg fresh_heap fresh_stack"
  using live.constructed [OF construct_fresh] by (simp add: is_err_def)

lemma live_full: "live hashed_cfg full_heap full_stack"
  using live_pushes [OF _ pushes_full] live_fresh by simp

lemma live_nine: "live hashed_cfg nine_heap nine_stack"
  using live_pushes [OF _ pushes_nine] live_full by simp

lemma live_five: "live hashed_cfg five_heap five_stack"
  using live_pops [OF _ pops_five] live_nine by simp

section \<open>Size and capacity of a live stack\<close>

text \<open>
  Claim C6. For every stack reached from a successful construct by pushes and pops,
  the size is at most the capacity and the capacity is at least the initial capacity 8;
  the same holds after one more push and after one more pop, whatever they report and
  also when the stack is empty, so no run of pops takes the capacity below 8.
\<close>

theorem live_bounds:
  assumes "live cfg h stk"
  shows "size_stk stk \<le> capacity stk \<and> INIT_CAP \<le> capacity stk \<and>
         (\<forall>x r res. push_stack cfg h stk x r = Returns res \<longrightarrow>
            size_stk (stk_of res) \<le> capacity (stk_of res) \<and> INIT_CAP \<le> capacity (stk_of res)) \<and>
         (\<forall>r res. pop_stack cfg h stk r = Returns res \<longrightarrow>
            size_stk (stk_of res) \<le> capacity (stk_of res) \<and> INIT_CAP \<le> capacity (stk_of res))"
proof -
  have b: "size_stk s \<le> capacity s \<and> INIT_CAP \<le> capacity s" if "live cfg g s" for g s
  proof -
    from that have "stack_inv0 cfg g s" using live_stack_inv by (simp add: stack_inv_def)
    then have "unat (size_stk s) \<le> unat (capacity s)" and c: "cap_ok (capacity s)"
      by (simp_all add: stack_inv0_def)
    then show ?thesis using cap_ok_bounds [OF c]
      by (simp add: word_le_nat_alt INIT_CAP_def)
  qed
  show ?thesis using b assms live.pushed live.popped by blast
qed

theorem live_bounds_witness:
  "live hashed_cfg fresh_heap fresh_stack \<and>
   size_stk fresh_stack = 0 \<and> capacity fresh_stack = 8 \<and>
   (case pop_stack hashed_cfg fresh_heap fresh_stack (reply_at 0x2000) of
      Fault \<Rightarrow> False
    | Returns res \<Rightarrow> size_stk (stk_of res) \<le> capacity (stk_of res) \<and>
        INIT_CAP \<le> capacity (stk_of res) \<and> capacity (stk_of res) = 8)"
proof -
  have p: "pop_stack hashed_cfg fresh_heap fresh_stack (reply_at 0x2000) =
      Returns \<lparr>heap_of = fresh_heap, stk_of = fresh_stack, err_of = STK_EMPTY_POP,
        ret_of = POISON\<rparr>"
    by (simp add: run_defs fresh_stack_def fresh_heap_def)
  from live_bounds [OF live_fresh] p
  have "size_stk fresh_stack \<le> capacity fresh_stack \<and> INIT_CAP \<le> capacity fresh_stack"
    by blast
  then show ?thesis using live_fresh p by (simp add: fresh_stack_def)
qed


section \<open>When pop shrinks the buffer\<close>

text \<open>
  Claim C2. On a live stack \<^verbatim>\<open>pop_stack\<close> always returns. When it sets no error, the
  capacity it leaves is half the capacity it found exactly if
  \<open>capacity / 4 + 1 \<ge> size\<close> held for the size before the pop and the capacity was
  above 8, and is the capacity it found otherwise. It sets an error only on an empty
  stack or when the allocator fails, and then nothing has changed. With capacity 16, a pop
  at size 5 leaves capacity 8 and a pop at size 6 leaves capacity 16.
\<close>

theorem pop_shrink_rule:
  assumes "live cfg h stk"
  shows "\<exists>res. pop_stack cfg h stk r = Returns res \<and>
           (\<not> is_err (err_of res) \<longrightarrow>
              capacity (stk_of res) =
                (if size_stk stk \<le> capacity stk div 4 + 1 \<and> 8 < capacity stk
                 then capacity stk div 2 else capacity stk)) \<and>
           (is_err (err_of res) \<longrightarrow>
              stk_of res = stk \<and> heap_of res = h \<and> (size_stk stk = 0 \<or> addr r = 0)) \<and>
           (size_stk stk \<noteq> 0 \<and> addr r \<noteq> 0 \<longrightarrow> \<not> is_err (err_of res)) \<and>
           (capacity stk = 16 \<and> size_stk stk = 5 \<and> addr r \<noteq> 0 \<longrightarrow>
              capacity (stk_of res) = 8) \<and>
           (capacity stk = 16 \<and> size_stk stk = 6 \<longrightarrow> capacity (stk_of res) = 16)"
proof -
  from assms have inv: "stack_inv cfg h stk" by (rule live_stack_inv)
  have sh: "shrinkable stk \<longleftrightarrow> size_stk stk \<le> capacity stk div 4 + 1 \<and> 8 < capacity stk"
    by (simp add: shrinkable_def CAP_FACTOR_def INIT_CAP_def)
  have s5: "capacity stk = 16 \<and> size_stk stk = 5 \<longrightarrow> shrinkable stk"
    by (simp add: shrinkable_def CAP_FACTOR_def INIT_CAP_def)
  have s6: "capacity stk = 16 \<and> size_stk stk = 6 \<longrightarrow> \<not> shrinkable stk"
    by (simp add: shrinkable_def CAP_FACTOR_def INIT_CAP_def)
  have h16: "(16 :: size_t) div 2 = 8" by simp
  from pop_cases [OF inv, of r] obtain res where
    p: "pop_stack cfg h stk r = Returns res"
    and c: "(res = \<lparr>heap_of = h, stk_of = stk, err_of = STK_EMPTY_POP, ret_of = POISON\<rparr> \<and>
               size_stk stk = 0 \<and> \<not> shrinkable stk) \<or>
            (res = \<lparr>heap_of = h, stk_of = stk, err_of = STK_BAD_ALLOC, ret_of = POISON\<rparr> \<and>
               size_stk stk \<noteq> 0 \<and> shrinkable stk \<and> addr r = 0) \<or>
            (err_of res = Vrf {} \<and> size_stk stk \<noteq> 0 \<and> (shrinkable stk \<longrightarrow> addr r \<noteq> 0) \<and>
               (if shrinkable stk
                then capacity (stk_of res) = capacity stk div CAP_FACTOR
                else capacity (stk_of res) = capacity stk))"
    by auto
  from c consider
      (empty) "res = \<lparr>heap_of = h, stk_of = stk, err_of = STK_EMPTY_POP, ret_of = POISON\<rparr>"
        "size_stk stk = 0" "\<not> shrinkable stk"
    | (nomem) "res = \<lparr>heap_of = h, stk_of = stk, err_of = STK_BAD_ALLOC, ret_of = POISON\<rparr>"
        "size_stk stk \<noteq> 0" "shrinkable stk" "addr r = 0"
    | (popped) "err_of res = Vrf {}" "size_stk stk \<noteq> 0" "shrinkable stk \<longrightarrow> addr r \<noteq> 0"
        "capacity (stk_of res) =
           (if shrinkable stk then capacity stk div CAP_FACTOR else capacity stk)"
    by (auto split: if_splits)
  then have "(\<not> is_err (err_of res) \<longrightarrow>
              capacity (stk_of res) =
                (if size_stk stk \<le> capacity stk div 4 + 1 \<and> 8 < capacity stk
                 then capacity stk div 2 else capacity stk)) \<and>
           (is_err (err_of res) \<longrightarrow>
              stk_of res = stk \<and> heap_of res = h \<and> (size_stk stk = 0 \<or> addr r = 0)) \<and>
           (size_stk stk \<noteq> 0 \<and> addr r \<noteq> 0 \<longrightarrow> \<not> is_err (err_of res)) \<and>
           (capacity stk = 16 \<and> size_stk stk = 5 \<and> addr r \<noteq> 0 \<longrightarrow>
              capacity (stk_of res) = 8) \<and>
           (capacity stk = 16 \<and> size_stk stk = 6 \<longrightarrow> capacity (stk_of res) = 16)"
  proof cases
    case empty
    then show ?thesis using sh by (auto simp: is_err_def)
  next
    case nomem
    then show ?thesis using sh s6 by (auto simp: is_err_def)
  next
    case popped
    then show ?thesis using sh s5 s6 h16 by (auto simp: is_err_def CAP_FACTOR_def)
  qed
  with p show ?thesis by blast
qed

theorem pop_shrink_rule_witness:
  "live hashed_cfg five_heap five_stack \<and> capacity five_stack = 16 \<and> size_stk five_stack = 5 \<and>
   (case pop_stack hashed_cfg five_heap five_stack (reply_at 0x2000) of
      Fault \<Rightarrow> False
    | Returns res \<Rightarrow> \<not> is_err (err_of res) \<and> capacity (stk_of res) = 8)"
proof -
  from pop_shrink_rule [OF live_five, of "reply_at 0x2000"] obtain res where
    p: "pop_stack hashed_cfg five_heap five_stack (reply_at 0x2000) = Returns res"
    and e: "size_stk five_stack \<noteq> 0 \<and> addr (reply_at 0x2000) \<noteq> 0 \<longrightarrow> \<not> is_err (err_of res)"
    and c: "capacity five_stack = 16 \<and> size_stk five_stack = 5 \<and> addr (reply_at 0x2000) \<noteq> 0 \<longrightarrow>
              capacity (stk_of res) = 8"
    by blast
  have f: "capacity five_stack = 16" "size_stk five_stack = 5" "addr (reply_at 0x2000) \<noteq> 0"
    by (simp_all add: five_stack_def reply_at_def)
  show ?thesis using live_five p e c f by simp
qed

text \<open>Pop on an empty stack, run on the stack that construct made.\<close>

theorem pop_empty_witness:
  "valid hashed_cfg fresh_heap fresh_stack \<and> size_stk fresh_stack = 0 \<and>
   pop_stack hashed_cfg fresh_heap fresh_stack (reply_at 0x2000) =
     Returns \<lparr>heap_of = fresh_heap, stk_of = fresh_stack, err_of = STK_EMPTY_POP,
       ret_of = POISON\<rparr>"
proof -
  have v: "valid hashed_cfg fresh_heap fresh_stack"
    using verify_stack_inv [OF live_stack_inv [OF live_fresh]]
      stack_inv_holds_capacity [OF live_stack_inv [OF live_fresh]]
    by (simp add: valid_def)
  have z: "size_stk fresh_stack = 0" by (simp add: fresh_stack_def)
  from pop_empty [OF v z] v z show ?thesis by simp
qed


section \<open>When push grows the buffer\<close>

text \<open>The capacity after \<open>n\<close> pushes onto a new stack, by the rule of \<^verbatim>\<open>push_stack\<close>:
  the push that finds the size equal to the capacity doubles the capacity.\<close>

fun cap_after :: "nat \<Rightarrow> nat" where
  "cap_after 0 = 8"
| "cap_after (Suc n) = (let c = cap_after n in if c = n then 2 * c else c)"

lemma pushes_append:
  "pushes cfg w (xs @ ys) = (case pushes cfg w xs of None \<Rightarrow> None | Some w' \<Rightarrow> pushes cfg w' ys)"
proof (induction xs arbitrary: w)
  case Nil
  then show ?case by simp
next
  case (Cons xr xs)
  obtain x r where "xr = (x, r)" by (cases xr)
  then show ?case using Cons.IH by (simp split: outcome.splits)
qed

lemma pushes_stack_inv:
  "stack_inv cfg (fst w) (snd w) \<Longrightarrow> pushes cfg w xrs = Some w' \<Longrightarrow>
   stack_inv cfg (fst w') (snd w') \<and>
   contents (fst w') (snd w') = contents (fst w) (snd w) @ map fst xrs"
proof (induction xrs arbitrary: w)
  case Nil
  then show ?case by simp
next
  case (Cons xr xrs)
  obtain x r where xr: "xr = (x, r)" by (cases xr)
  from Cons.prems(2) xr obtain res where
    p: "push_stack cfg (fst w) (snd w) x r = Returns res" and ok: "\<not> is_err (err_of res)"
    and rest: "pushes cfg (heap_of res, stk_of res) xrs = Some w'"
    by (auto split: outcome.splits if_splits)
  from push_cases [OF Cons.prems(1) p] ok
  have i: "stack_inv cfg (heap_of res) (stk_of res)"
    and c: "contents (heap_of res) (stk_of res) = contents (fst w) (snd w) @ [x]"
    by (auto simp: is_err_def)
  from Cons.IH [of "(heap_of res, stk_of res)"] i rest c xr show ?case by simp
qed

lemma pushes_cap_after:
  assumes c: "construct_stack cfg h0 stk0 r0 = Returns res0" and ok: "\<not> is_err (err_of res0)"
  shows "pushes cfg (heap_of res0, stk_of res0) xrs = Some w \<Longrightarrow>
         stack_inv cfg (fst w) (snd w) \<and> unat (size_stk (snd w)) = length xrs \<and>
         unat (capacity (snd w)) = cap_after (length xrs)"
proof (induction xrs arbitrary: w rule: rev_induct)
  case Nil
  then show ?case using construct_success [OF c ok] by (auto simp: INIT_CAP_def)
next
  case (snoc xr xrs)
  obtain x r where xr: "xr = (x, r)" by (cases xr)
  from snoc.prems obtain w1 where w1: "pushes cfg (heap_of res0, stk_of res0) xrs = Some w1"
    and last: "pushes cfg w1 [xr] = Some w"
    by (auto simp: pushes_append split: option.splits)
  from snoc.IH [OF w1] have i: "stack_inv cfg (fst w1) (snd w1)"
    and s: "unat (size_stk (snd w1)) = length xrs"
    and k: "unat (capacity (snd w1)) = cap_after (length xrs)"
    by simp_all
  from last xr obtain res where
    p: "push_stack cfg (fst w1) (snd w1) x r = Returns res" and e: "\<not> is_err (err_of res)"
    and w: "w = (heap_of res, stk_of res)"
    by (auto split: outcome.splits if_splits)
  from push_cases [OF i p] e
  have i': "stack_inv cfg (heap_of res) (stk_of res)"
    and s': "unat (size_stk (stk_of res)) = unat (size_stk (snd w1)) + 1"
    and k': "unat (capacity (stk_of res)) =
        (if expandable (snd w1) then 2 * unat (capacity (snd w1)) else unat (capacity (snd w1)))"
    by (auto simp: is_err_def split: if_splits)
  show ?case using i' s' k' s k w by (simp add: expandable_nat Let_def)
qed

lemma cap_after_values: "cap_after 9 = 16" "cap_after 17 = 32"
  by code_simp+

text \<open>
  Claim C3. A push onto a live stack that sets no error leaves twice the capacity it
  found (the product does not wrap) exactly if it found the size equal to the capacity,
  and the capacity it found otherwise. The capacity of a live stack is 8 times a power
  of two. After a successful construct, nine successful pushes leave capacity 16 and
  seventeen leave capacity 32.
\<close>

theorem push_growth_rule:
  "(live cfg h stk \<and> push_stack cfg h stk x r = Returns res \<and> \<not> is_err (err_of res) \<longrightarrow>
      capacity (stk_of res) =
        (if size_stk stk = capacity stk then 2 * capacity stk else capacity stk) \<and>
      unat (capacity (stk_of res)) =
        (if size_stk stk = capacity stk then 2 * unat (capacity stk) else unat (capacity stk))) \<and>
   (live cfg h stk \<longrightarrow> (\<exists>k. unat (capacity stk) = 8 * 2 ^ k)) \<and>
   (construct_stack cfg h0 stk0 r0 = Returns res0 \<and> \<not> is_err (err_of res0) \<and>
    pushes cfg (heap_of res0, stk_of res0) xrs = Some (h', stk') \<longrightarrow>
      (length xrs = 9 \<longrightarrow> capacity stk' = 16) \<and> (length xrs = 17 \<longrightarrow> capacity stk' = 32))"
proof (intro conjI impI)
  assume a: "live cfg h stk \<and> push_stack cfg h stk x r = Returns res \<and> \<not> is_err (err_of res)"
  then have inv: "stack_inv cfg h stk" using live_stack_inv by blast
  from a push_cases [OF inv, of x r res]
  have c: "if expandable stk
       then capacity (stk_of res) = capacity stk * CAP_FACTOR \<and>
            unat (capacity (stk_of res)) = 2 * unat (capacity stk)
       else capacity (stk_of res) = capacity stk"
    by (auto simp: is_err_def)
  have e: "expandable stk \<longleftrightarrow> size_stk stk = capacity stk" by (auto simp: expandable_def)
  show "capacity (stk_of res) =
      (if size_stk stk = capacity stk then 2 * capacity stk else capacity stk)"
    using c e by (auto simp: CAP_FACTOR_def split: if_splits)
  show "unat (capacity (stk_of res)) =
      (if size_stk stk = capacity stk then 2 * unat (capacity stk) else unat (capacity stk))"
    using c e by (auto split: if_splits)
next
  assume "live cfg h stk"
  then have "cap_ok (capacity stk)"
    using live_stack_inv by (auto simp: stack_inv_def stack_inv0_def)
  then show "\<exists>k. unat (capacity stk) = 8 * 2 ^ k" by (auto simp: cap_ok_def)
next
  assume a: "construct_stack cfg h0 stk0 r0 = Returns res0 \<and> \<not> is_err (err_of res0) \<and>
    pushes cfg (heap_of res0, stk_of res0) xrs = Some (h', stk')"
  then have u: "unat (capacity stk') = cap_after (length xrs)"
    using pushes_cap_after [of cfg h0 stk0 r0 res0 xrs "(h', stk')"] by simp
  {
    assume "length xrs = 9"
    then have "unat (capacity stk') = unat (16 :: size_t)" using u cap_after_values by simp
    then show "capacity stk' = 16" by (simp only: word_unat_eq_iff)
  }
  {
    assume "length xrs = 17"
    then have "unat (capacity stk') = unat (32 :: size_t)" using u cap_after_values by simp
    then show "capacity stk' = 32" by (simp only: word_unat_eq_iff)
  }
qed


theorem push_growth_rule_witness:
  "live hashed_cfg full_heap full_stack \<and> size_stk full_stack = capacity full_stack \<and>
   construct_stack hashed_cfg empty_heap zero_stack (reply_at 0x1000) =
     Returns \<lparr>heap_of = fresh_heap, stk_of = fresh_stack, err_of = Vrf {}, ret_of = True\<rparr> \<and>
   pushes hashed_cfg (fresh_heap, fresh_stack)
     [(1, reply_at 0x1000), (2, reply_at 0x1000), (3, reply_at 0x1000), (4, reply_at 0x1000),
      (5, reply_at 0x1000), (6, reply_at 0x1000), (7, reply_at 0x1000), (8, reply_at 0x1000),
      (9, reply_at 0x1000)] = Some (nine_heap, nine_stack) \<and>
   capacity nine_stack = 2 * capacity full_stack \<and> capacity nine_stack = 16"
proof -
  let ?eight = "[(1, reply_at 0x1000), (2, reply_at 0x1000), (3, reply_at 0x1000),
      (4, reply_at 0x1000), (5, reply_at 0x1000), (6, reply_at 0x1000), (7, reply_at 0x1000),
      (8 :: item_t, reply_at 0x1000)]"
  let ?nine = "[(1, reply_at 0x1000), (2, reply_at 0x1000), (3, reply_at 0x1000),
      (4, reply_at 0x1000), (5, reply_at 0x1000), (6, reply_at 0x1000), (7, reply_at 0x1000),
      (8 :: item_t, reply_at 0x1000), (9, reply_at 0x1000)]"
  let ?fresh = "\<lparr>heap_of = fresh_heap, stk_of = fresh_stack, err_of = Vrf {}, ret_of = True\<rparr>"
  have "pushes hashed_cfg (fresh_heap, fresh_stack) (?eight @ [(9, reply_at 0x1000)]) =
      Some (nine_heap, nine_stack)"
    using pushes_full pushes_nine by (simp only: pushes_append option.case)
  then have nine: "pushes hashed_cfg (fresh_heap, fresh_stack) ?nine =
      Some (nine_heap, nine_stack)"
    by (simp only: append.simps)
  have len: "length ?nine = 9" by simp
  from pushes_nine obtain res where
    p: "push_stack hashed_cfg full_heap full_stack 9 (reply_at 0x1000) = Returns res"
    and e: "\<not> is_err (err_of res)" and s: "stk_of res = nine_stack"
    by (auto split: outcome.splits if_splits)
  have eq: "size_stk full_stack = capacity full_stack" by (simp add: full_stack_def)
  have ok: "\<not> is_err (err_of ?fresh)" by (simp add: is_err_def)
  note rule = push_growth_rule [of hashed_cfg full_heap full_stack 9 "reply_at 0x1000" res
      empty_heap zero_stack "reply_at 0x1000" ?fresh ?nine nine_heap nine_stack]
  have "capacity (stk_of res) =
      (if size_stk full_stack = capacity full_stack then 2 * capacity full_stack
       else capacity full_stack)"
    using rule live_full p e by blast
  then have t1: "capacity nine_stack = 2 * capacity full_stack" unfolding s using eq by simp
  have nine': "pushes hashed_cfg (heap_of ?fresh, stk_of ?fresh) ?nine =
      Some (nine_heap, nine_stack)"
    using nine by simp
  have t3: "capacity nine_stack = 16"
    using rule construct_fresh ok nine' len by blast
  show ?thesis using live_full eq construct_fresh nine t1 t3 by blast
qed

section \<open>A push that cannot grow the buffer\<close>

lemma live_capacity_below_threshold:
  "live cfg h stk \<Longrightarrow> 2 * unat (capacity stk) \<le> unat CAP_MAX"
proof -
  assume "live cfg h stk"
  then have "cap_ok (capacity stk)"
    using live_stack_inv by (auto simp: stack_inv_def stack_inv0_def)
  from cap_ok_bounds [OF this] show ?thesis by (simp add: CAP_MAX_value)
qed

lemma growth_refused:
  assumes inv: "stack_inv cfg h stk"
    and r: "addr r = 0 \<or> PTRDIFF_MAX < 8 * unat (capacity stk)"
  shows "realloc_stack cfg h stk (capacity stk * CAP_FACTOR) r = Returns (h, 0)"
proof -
  from inv have blk: "items stk = 0 \<or> h (items stk) \<noteq> None"
    and c: "cap_ok (capacity stk)"
    by (auto simp: stack_inv_def stack_inv0_def split: option.splits)
  let ?c = "capacity stk * CAP_FACTOR"
  have "unat (capacity stk) < 2 ^ 61" using cap_ok_bounds [OF c] by simp
  then have u: "unat ?c = 2 * unat (capacity stk)" by (rule unat_double)
  have c': "0 < unat ?c" "unat ?c \<le> 2 ^ 61" "addr r = 0 \<or> 2 ^ 61 \<le> unat ?c"
    using u cap_ok_bounds [OF c] r by (auto simp: PTRDIFF_MAX_def)
  show ?thesis using blk c' by (rule realloc_stack_null)
qed

text \<open>
  Claim C4. On a live stack \<^verbatim>\<open>push_stack\<close> always returns, and the only error it sets
  is \<^verbatim>\<open>STK_BAD_ALLOC\<close>, on a full stack whose reallocation failed (\<^verbatim>\<open>realloc_stack\<close>
  returned the null pointer); then the structure and the heap are as they were: the item
  is not stored and the size is not changed. The reallocation fails when the allocator
  answers null, and always when the doubled buffer would have more than \<^verbatim>\<open>PTRDIFF_MAX\<close>
  bytes. Growth never takes the capacity beyond \<^verbatim>\<open>CAP_MAX\<close>: twice the capacity of a live
  stack is at most \<^verbatim>\<open>CAP_MAX\<close>, so a growth that would exceed the threshold does not arise.
\<close>

theorem push_all_or_nothing:
  assumes "live cfg h stk"
  shows "2 * unat (capacity stk) \<le> unat CAP_MAX \<and>
         (\<exists>res. push_stack cfg h stk x r = Returns res \<and>
            (is_err (err_of res) \<longrightarrow>
               res = \<lparr>heap_of = h, stk_of = stk, err_of = STK_BAD_ALLOC, ret_of = ()\<rparr> \<and>
               expandable stk \<and>
               realloc_stack cfg h stk (capacity stk * CAP_FACTOR) r = Returns (h, 0))) \<and>
         (expandable stk \<and>
          realloc_stack cfg h stk (capacity stk * CAP_FACTOR) r = Returns (h, 0) \<longrightarrow>
            push_stack cfg h stk x r =
              Returns \<lparr>heap_of = h, stk_of = stk, err_of = STK_BAD_ALLOC, ret_of = ()\<rparr>) \<and>
         (addr r = 0 \<or> PTRDIFF_MAX < 8 * unat (capacity stk) \<longrightarrow>
            realloc_stack cfg h stk (capacity stk * CAP_FACTOR) r = Returns (h, 0))"
proof -
  from assms have inv: "stack_inv cfg h stk" by (rule live_stack_inv)
  let ?fail = "\<lparr>heap_of = h, stk_of = stk, err_of = STK_BAD_ALLOC, ret_of = ()\<rparr>"
  let ?null = "realloc_stack cfg h stk (capacity stk * CAP_FACTOR) r = Returns (h, 0)"
  have a: "2 * unat (capacity stk) \<le> unat CAP_MAX"
    using assms by (rule live_capacity_below_threshold)
  have c: "push_stack cfg h stk x r = Returns ?fail" if "expandable stk" ?null
    using checked_verify_inv [OF inv] that at_finally_inv [of cfg ?fail] inv
    by (simp add: push_stack_def is_err_def)
  have d: ?null if "addr r = 0 \<or> PTRDIFF_MAX < 8 * unat (capacity stk)"
    using inv that by (rule growth_refused)
  have b: "\<exists>res. push_stack cfg h stk x r = Returns res \<and>
      (is_err (err_of res) \<longrightarrow> res = ?fail \<and> expandable stk \<and> ?null)"
  proof (cases "expandable stk")
    case False
    from push_no_growth [OF inv False, of x r] show ?thesis by (auto simp: is_err_def)
  next
    case ex: True
    show ?thesis
    proof (cases "addr r = 0 \<or> PTRDIFF_MAX < 8 * unat (capacity stk)")
      case True
      with c d ex show ?thesis by blast
    next
      case False
      then have "addr r \<noteq> 0" "unat (capacity stk) < 2 ^ 60" by (simp_all add: PTRDIFF_MAX_def)
      from push_growth [OF inv ex this, of x] show ?thesis by (auto simp: is_err_def)
    qed
  qed
  from a b c d show ?thesis by blast
qed

theorem push_all_or_nothing_witness:
  "live hashed_cfg full_heap full_stack \<and> expandable full_stack \<and>
   realloc_stack hashed_cfg full_heap full_stack (capacity full_stack * CAP_FACTOR) (reply_at 0) =
     Returns (full_heap, 0) \<and>
   push_stack hashed_cfg full_heap full_stack 9 (reply_at 0) =
     Returns \<lparr>heap_of = full_heap, stk_of = full_stack, err_of = STK_BAD_ALLOC, ret_of = ()\<rparr>"
proof -
  have e: "expandable full_stack" by (simp add: expandable_def full_stack_def)
  have z: "addr (reply_at 0) = 0" by (simp add: reply_at_def)
  note rule = push_all_or_nothing [OF live_full, where r = "reply_at 0" and x = 9]
  from rule z have r: "realloc_stack hashed_cfg full_heap full_stack
      (capacity full_stack * CAP_FACTOR) (reply_at 0) = Returns (full_heap, 0)"
    by blast
  with rule e have "push_stack hashed_cfg full_heap full_stack 9 (reply_at 0) =
     Returns \<lparr>heap_of = full_heap, stk_of = full_stack, err_of = STK_BAD_ALLOC, ret_of = ()\<rparr>"
    by blast
  with live_full e r show ?thesis by blast
qed

section \<open>Last in, first out\<close>

lemma length_contents:
  "stack_inv cfg h stk \<Longrightarrow> length (contents h stk) = unat (size_stk stk)"
  by (auto simp: stack_inv_def stack_inv0_def contents_def split: option.splits)

lemma pops_stack_inv:
  "stack_inv cfg (fst w) (snd w) \<Longrightarrow> pops cfg w rs = Some (vs, w') \<Longrightarrow>
   stack_inv cfg (fst w') (snd w') \<and> length vs = length rs \<and>
   contents (fst w) (snd w) = contents (fst w') (snd w') @ rev vs"
proof (induction rs arbitrary: w vs)
  case Nil
  then show ?case by simp
next
  case (Cons r rs)
  from Cons.prems(2) obtain res vs' where
    p: "pop_stack cfg (fst w) (snd w) r = Returns res" and ok: "\<not> is_err (err_of res)"
    and rest: "pops cfg (heap_of res, stk_of res) rs = Some (vs', w')"
    and vs: "vs = ret_of res # vs'"
    by (auto split: outcome.splits if_splits option.splits)
  from pop_cases [OF Cons.prems(1), of r] p ok
  have i: "stack_inv cfg (heap_of res) (stk_of res)" and ne: "size_stk (snd w) \<noteq> 0"
    and l: "ret_of res = last (contents (fst w) (snd w))"
    and c: "contents (heap_of res) (stk_of res) = butlast (contents (fst w) (snd w))"
    by (auto simp: is_err_def)
  from ne have "unat (size_stk (snd w)) \<noteq> 0" by (simp add: unat_eq_0)
  then have "contents (fst w) (snd w) \<noteq> []"
    using length_contents [OF Cons.prems(1)] by auto
  then have split: "contents (fst w) (snd w) =
      contents (heap_of res) (stk_of res) @ [ret_of res]"
    using l c by simp
  from Cons.IH [of "(heap_of res, stk_of res)" vs'] i rest
  have "stack_inv cfg (fst w') (snd w')" "length vs' = length rs"
    "contents (heap_of res) (stk_of res) = contents (fst w') (snd w') @ rev vs'"
    by simp_all
  then show ?case using split vs by simp
qed

lemma pops_defined:
  "stack_inv cfg (fst w) (snd w) \<Longrightarrow> length rs \<le> length (contents (fst w) (snd w)) \<Longrightarrow>
   \<forall>r\<in>set rs. addr r \<noteq> 0 \<Longrightarrow> \<exists>vs w'. pops cfg w rs = Some (vs, w')"
proof (induction rs arbitrary: w)
  case Nil
  then show ?case by simp
next
  case (Cons r rs)
  from Cons.prems(2) have "0 < unat (size_stk (snd w))"
    using length_contents [OF Cons.prems(1)] by simp
  then have ne: "size_stk (snd w) \<noteq> 0" by auto
  from Cons.prems(3) have r: "addr r \<noteq> 0" by simp
  from pop_cases [OF Cons.prems(1), of r] ne r obtain res where
    p: "pop_stack cfg (fst w) (snd w) r = Returns res" and e: "err_of res = Vrf {}"
    and i: "stack_inv cfg (heap_of res) (stk_of res)"
    and c: "contents (heap_of res) (stk_of res) = butlast (contents (fst w) (snd w))"
    by auto
  have "length rs \<le> length (contents (heap_of res) (stk_of res))"
    using c Cons.prems(2) by simp
  from Cons.IH [of "(heap_of res, stk_of res)"] i this Cons.prems(3)
  obtain vs w' where "pops cfg (heap_of res, stk_of res) rs = Some (vs, w')" by auto
  then show ?case using p e by (simp add: is_err_def)
qed

text \<open>
  Claim C1. Let the items \<open>x1 .. xn\<close> be pushed on a live stack, every push setting no
  error, and let \<open>n\<close> pops follow. If the pops set no error they return
  \<open>xn .. x1\<close>; and they set no error when the allocator fails none of them. In
  particular a pop right after a successful push of \<open>v\<close> returns \<open>v\<close>, whatever \<open>v\<close>
  is, the poison included.
\<close>

theorem push_pop_lifo:
  assumes "live cfg h stk" and "pushes cfg (h, stk) xrs = Some w" and "length rs = length xrs"
  shows "(\<forall>vs w'. pops cfg w rs = Some (vs, w') \<longrightarrow> vs = rev (map fst xrs)) \<and>
         ((\<forall>r\<in>set rs. addr r \<noteq> 0) \<longrightarrow> (\<exists>w'. pops cfg w rs = Some (rev (map fst xrs), w'))) \<and>
         (\<forall>v r q res. push_stack cfg h stk v r = Returns res \<and> \<not> is_err (err_of res) \<and>
            addr q \<noteq> 0 \<longrightarrow>
            (\<exists>res'. pop_stack cfg (heap_of res) (stk_of res) q = Returns res' \<and>
               \<not> is_err (err_of res') \<and> ret_of res' = v))"
proof -
  from assms(1) have inv: "stack_inv cfg (fst (h, stk)) (snd (h, stk))"
    using live_stack_inv by simp
  from pushes_stack_inv [OF inv assms(2)]
  have iw: "stack_inv cfg (fst w) (snd w)"
    and cw: "contents (fst w) (snd w) = contents h stk @ map fst xrs"
    by simp_all
  have a: "vs = rev (map fst xrs)" if "pops cfg w rs = Some (vs, w')" for vs w'
  proof -
    from pops_stack_inv [OF iw that]
    have l: "length vs = length rs"
      and c: "contents (fst w) (snd w) = contents (fst w') (snd w') @ rev vs"
      by simp_all
    from c cw have "contents h stk @ map fst xrs = contents (fst w') (snd w') @ rev vs" by simp
    moreover have "length (map fst xrs) = length (rev vs)" using l assms(3) by simp
    ultimately have "map fst xrs = rev vs" by (metis append_eq_append_conv)
    then show ?thesis by (metis rev_rev_ident)
  qed
  have b: "\<exists>w'. pops cfg w rs = Some (rev (map fst xrs), w')" if "\<forall>r\<in>set rs. addr r \<noteq> 0"
  proof -
    have "length rs \<le> length (contents (fst w) (snd w))" using cw assms(3) by simp
    from pops_defined [OF iw this that] obtain vs w' where "pops cfg w rs = Some (vs, w')"
      by blast
    with a show ?thesis by blast
  qed
  have c: "\<exists>res'. pop_stack cfg (heap_of res) (stk_of res) q = Returns res' \<and>
      \<not> is_err (err_of res') \<and> ret_of res' = v"
    if "push_stack cfg h stk v r = Returns res \<and> \<not> is_err (err_of res) \<and> addr q \<noteq> 0"
    for v r q res
  proof -
    from assms(1) have i0: "stack_inv cfg h stk" by (rule live_stack_inv)
    from push_cases [OF i0, of v r res] that
    have i: "stack_inv cfg (heap_of res) (stk_of res)"
      and ct: "contents (heap_of res) (stk_of res) = contents h stk @ [v]"
      and sz: "unat (size_stk (stk_of res)) = unat (size_stk stk) + 1"
      by (auto simp: is_err_def)
    from sz have ne: "size_stk (stk_of res) \<noteq> 0" by auto
    from pop_cases [OF i, of q] ne that ct show ?thesis by (auto simp: is_err_def)
  qed
  from a b c show ?thesis by blast
qed

theorem push_pop_lifo_witness:
  "live hashed_cfg fresh_heap fresh_stack \<and>
   pushes hashed_cfg (fresh_heap, fresh_stack)
     [(1, reply_at 0x1000), (2, reply_at 0x1000), (3, reply_at 0x1000), (4, reply_at 0x1000),
      (5, reply_at 0x1000), (6, reply_at 0x1000), (7, reply_at 0x1000), (8, reply_at 0x1000)] =
     Some (full_heap, full_stack) \<and>
   (\<exists>w'. pops hashed_cfg (full_heap, full_stack) (same_place 8) =
      Some ([8, 7, 6, 5, 4, 3, 2, 1], w')) \<and>
   (\<exists>res. push_stack hashed_cfg fresh_heap fresh_stack POISON (reply_at 0x1000) = Returns res \<and>
      \<not> is_err (err_of res) \<and>
      (\<exists>res'. pop_stack hashed_cfg (heap_of res) (stk_of res) (reply_at 0x1000) = Returns res' \<and>
         \<not> is_err (err_of res') \<and> ret_of res' = POISON))"
proof -
  let ?eight = "[(1, reply_at 0x1000), (2, reply_at 0x1000), (3, reply_at 0x1000),
      (4, reply_at 0x1000), (5, reply_at 0x1000), (6, reply_at 0x1000), (7, reply_at 0x1000),
      (8 :: item_t, reply_at 0x1000)]"
  have len: "length (same_place 8) = length ?eight" by (simp add: same_place_def)
  have nz: "\<forall>r\<in>set (same_place 8). addr r \<noteq> 0" by (simp add: same_place_def reply_at_def)
  have q: "addr (reply_at 0x1000) \<noteq> 0" by (simp add: reply_at_def)
  note lifo = push_pop_lifo [OF live_fresh pushes_full len]
  from lifo nz obtain w' where
    "pops hashed_cfg (full_heap, full_stack) (same_place 8) = Some (rev (map fst ?eight), w')"
    by blast
  then have a: "\<exists>w'. pops hashed_cfg (full_heap, full_stack) (same_place 8) =
      Some ([8, 7, 6, 5, 4, 3, 2, 1], w')"
    by simp
  have ne: "\<not> expandable fresh_stack" by (simp add: expandable_def fresh_stack_def)
  from push_no_growth [OF live_stack_inv [OF live_fresh] ne, of POISON "reply_at 0x1000"]
  obtain res where p: "push_stack hashed_cfg fresh_heap fresh_stack POISON (reply_at 0x1000) =
      Returns res" and e: "\<not> is_err (err_of res)"
    by (auto simp: is_err_def)
  from lifo p e q
  have "\<exists>res'. pop_stack hashed_cfg (heap_of res) (stk_of res) (reply_at 0x1000) = Returns res' \<and>
      \<not> is_err (err_of res') \<and> ret_of res' = POISON"
    by blast
  with p e have b: "\<exists>res. push_stack hashed_cfg fresh_heap fresh_stack POISON (reply_at 0x1000) =
      Returns res \<and> \<not> is_err (err_of res) \<and>
      (\<exists>res'. pop_stack hashed_cfg (heap_of res) (stk_of res) (reply_at 0x1000) = Returns res' \<and>
         \<not> is_err (err_of res') \<and> ret_of res' = POISON)"
    by blast
  show ?thesis using live_fresh pushes_full a b by blast
qed


section \<open>Construct and destruct\<close>

text \<open>The unconstructed state, as \<^verbatim>\<open>verify_empty_stack\<close> tests it: the fields of the
  build are all zero.\<close>

definition zeroed :: "config \<Rightarrow> stack_t \<Rightarrow> bool" where
  "zeroed cfg stk =
     (items stk = 0 \<and> capacity stk = 0 \<and> size_stk stk = 0 \<and>
      (hash_protect cfg \<longrightarrow> hash stk = 0) \<and>
      (canary_protect cfg \<longrightarrow> left_canary stk = 0 \<and> right_canary stk = 0))"

lemma verify_empty_stack_zeroed: "verify_empty_stack cfg stk = {} \<longleftrightarrow> zeroed cfg stk"
  by (auto simp: verify_empty_stack_def zeroed_def)

lemma construct_zeroed:
  assumes nc: "\<not> canary_protect cfg" and z: "zeroed cfg stk" and r: "addr r \<noteq> 0"
  shows "\<exists>res. construct_stack cfg h stk r = Returns res \<and> err_of res = Vrf {} \<and> ret_of res \<and>
           stack_inv cfg (heap_of res) (stk_of res) \<and> capacity (stk_of res) = INIT_CAP \<and>
           size_stk (stk_of res) = 0 \<and> items (stk_of res) = addr r"
proof -
  from z have e: "(if UNPROTECT cfg then {} else verify_empty_stack cfg stk) = {}"
    by (simp add: verify_empty_stack_zeroed)
  from z have f: "items stk = 0" "size_stk stk = 0" by (simp_all add: zeroed_def)
  let ?b = "\<lparr>cells = memset_from 0 (map (junk r) [0..<8])\<rparr>"
  have ra: "realloc_stack cfg h stk INIT_CAP r = Returns (h(addr r \<mapsto> ?b), addr r)"
    using f r nc
    by (simp add: realloc_stack_def realloc_def block_at_def INIT_CAP_def sizeof_item_t_def
        PTRDIFF_MAX_def Let_def)
  let ?stk1 = "stk\<lparr>capacity := INIT_CAP, items := addr r, size_stk := 0\<rparr>"
  have i0: "stack_inv0 cfg (h(addr r \<mapsto> ?b)) ?stk1"
    using r nc cap_ok_init by (simp add: stack_inv0_def INIT_CAP_def)
  from refresh_and_verify_inv0 [OF i0] obtain stk' where
    rv: "refresh_and_verify cfg (h(addr r \<mapsto> ?b)) ?stk1 = Returns (Vrf {}, stk')"
    and it: "items stk' = items ?stk1"
    by auto
  let ?res = "\<lparr>heap_of = h(addr r \<mapsto> ?b), stk_of = stk', err_of = Vrf {}, ret_of = True\<rparr>"
  have c: "construct_stack cfg h stk r = Returns ?res"
    using e ra r nc rv by (simp add: construct_stack_def is_err_def Let_def)
  have "\<not> is_err (err_of ?res)" by (simp add: is_err_def)
  from construct_success [OF c this] c it show ?thesis by auto
qed

text \<open>The loads of \<^verbatim>\<open>dump_stack\<close> are defined: those of \<^verbatim>\<open>verify_stack\<close> are, and those
  of the loop over the items.\<close>

definition dumpable :: "config \<Rightarrow> heap \<Rightarrow> stack_t \<Rightarrow> bool" where
  "dumpable cfg h stk = (readable cfg h stk \<and> holds_capacity h stk)"

lemma at_finally_dumpable:
  assumes "dumpable cfg (heap_of res) (stk_of res)"
  shows "at_finally cfg res = Returns res"
proof -
  from assms verify_stack_readable obtain vrf where
    "verify_stack cfg (heap_of res) (stk_of res) = Returns (vrf, stk_of res)"
    unfolding dumpable_def by blast
  moreover from assms have "holds_capacity (heap_of res) (stk_of res)"
    by (simp add: dumpable_def)
  ultimately have "dump_stack cfg (heap_of res) (stk_of res) = Returns (stk_of res)"
    by (rule dump_stack_verified)
  then show ?thesis by (rule at_finally_dumped)
qed

lemma at_finally_undumpable:
  assumes "\<not> dumpable cfg (heap_of res) (stk_of res)" and "is_err (err_of res)"
  shows "at_finally cfg res = Fault"
proof -
  from assms(1) have "dump_stack cfg (heap_of res) (stk_of res) = Fault"
    using dump_stack_defined [of cfg "heap_of res" "stk_of res"] by (auto simp: dumpable_def)
  then show ?thesis using assms(2) by (simp add: at_finally_def log_dump_def)
qed

text \<open>
  Claim C7, as the code has it. In a build without \<^verbatim>\<open>UNPROTECT\<close>, construct on a
  stack that is not in the unconstructed state finds a mask of \<^verbatim>\<open>verify_empty_stack\<close>
  that is not zero and goes to \<^verbatim>\<open>finally\<close> without calling the allocator. There it
  writes the dump of the stack. When the loads of the dump are defined (\<open>dumpable\<close>: the
  buffer pointer is null, or the build has no \<^verbatim>\<open>CANARY_PROTECT\<close> and the pointer addresses
  a block that holds the bytes to hash and the items of the capacity), construct returns
  the null pointer with that mask as the error, and the heap and the structure are as
  they were. Otherwise its behaviour is undefined.
\<close>

theorem construct_not_empty:
  assumes "\<not> UNPROTECT cfg" and "\<not> zeroed cfg stk"
  shows "verify_empty_stack cfg stk \<noteq> {} \<and>
         (dumpable cfg h stk \<longrightarrow>
            construct_stack cfg h stk r =
              Returns \<lparr>heap_of = h, stk_of = stk, err_of = Vrf (verify_empty_stack cfg stk),
                ret_of = False\<rparr>) \<and>
         (\<not> dumpable cfg h stk \<longrightarrow> construct_stack cfg h stk r = Fault)"
proof -
  let ?res = "\<lparr>heap_of = h, stk_of = stk, err_of = Vrf (verify_empty_stack cfg stk),
      ret_of = False\<rparr>"
  have m: "verify_empty_stack cfg stk \<noteq> {}"
    using assms(2) by (simp add: verify_empty_stack_zeroed)
  then have c: "construct_stack cfg h stk r = at_finally cfg ?res"
    using assms(1) by (simp add: construct_stack_def)
  have e: "is_err (err_of ?res)" using m by (simp add: is_err_def)
  have "dumpable cfg h stk \<longrightarrow> at_finally cfg ?res = Returns ?res"
    using at_finally_dumpable [of cfg ?res] by simp
  moreover have "\<not> dumpable cfg h stk \<longrightarrow> at_finally cfg ?res = Fault"
    using at_finally_undumpable [of cfg ?res] e by simp
  ultimately show ?thesis using m c by simp
qed

theorem construct_not_empty_witness:
  "\<not> UNPROTECT hashed_cfg \<and> \<not> zeroed hashed_cfg full_stack \<and>
   dumpable hashed_cfg full_heap full_stack \<and>
   verify_empty_stack hashed_cfg full_stack = {INVALID_ITEMS, INVALID_CAPACITY, INVALID_SIZE,
     INVALID_HASH} \<and>
   construct_stack hashed_cfg full_heap full_stack (reply_at 0x2000) =
     Returns \<lparr>heap_of = full_heap, stk_of = full_stack,
       err_of = Vrf (verify_empty_stack hashed_cfg full_stack), ret_of = False\<rparr>"
proof -
  have u: "\<not> UNPROTECT hashed_cfg" by (simp add: hashed_cfg_def)
  have z: "\<not> zeroed hashed_cfg full_stack" by (simp add: zeroed_def full_stack_def)
  have m: "verify_empty_stack hashed_cfg full_stack =
      {INVALID_ITEMS, INVALID_CAPACITY, INVALID_SIZE, INVALID_HASH}"
    by (simp add: verify_empty_stack_def full_stack_def hashed_cfg_def hash_protect_def
        canary_protect_def insert_commute)
  have d: "dumpable hashed_cfg full_heap full_stack"
    by (simp add: dumpable_def readable_def holds_capacity_def hashed_cfg_def
        canary_protect_def hash_protect_def full_heap_def full_stack_def empty_heap_def
        items_in_bytes_def sizeof_item_t_def)
  from construct_not_empty [OF u z, of full_heap "reply_at 0x2000"] d
  have "construct_stack hashed_cfg full_heap full_stack (reply_at 0x2000) =
     Returns \<lparr>heap_of = full_heap, stk_of = full_stack,
       err_of = Vrf (verify_empty_stack hashed_cfg full_stack), ret_of = False\<rparr>"
    by blast
  with u z d m show ?thesis by blast
qed

text \<open>The claim C7 as it was stated fails on three stacks that are not in the
  unconstructed state. With \<^verbatim>\<open>UNPROTECT\<close> construct does not look at the stack it is
  given: on the full stack it reallocates the buffer, sets no error and resets the size.
  In the build with \<^verbatim>\<open>HASH_PROTECT\<close> only, on a structure whose buffer pointer addresses
  no block, the dump hashes memory that is not there. With \<^verbatim>\<open>CANARY_PROTECT\<close>, on a stack
  with its buffer, the dump loads the left guard word from before the block.\<close>

theorem construct_not_empty_counterexample:
  "\<not> zeroed unprotected_cfg full_stack \<and>
   construct_stack unprotected_cfg full_heap full_stack (reply_at 0x2000) =
     Returns \<lparr>heap_of = empty_heap(0x2000 \<mapsto> \<lparr>cells = [1, 2, 3, 4, 5, 6, 7, 8]\<rparr>),
              stk_of = full_stack\<lparr>items := 0x2000, size_stk := 0\<rparr>,
              err_of = Vrf {}, ret_of = True\<rparr> \<and>
   \<not> UNPROTECT hashed_cfg \<and> \<not> zeroed hashed_cfg full_stack \<and>
   construct_stack hashed_cfg empty_heap full_stack (reply_at 0x2000) = Fault \<and>
   \<not> UNPROTECT guarded_cfg \<and> \<not> zeroed guarded_cfg guarded_stack \<and>
   construct_stack guarded_cfg guarded_heap guarded_stack (reply_at 0x2000) = Fault"
proof -
  have z: "\<not> zeroed unprotected_cfg full_stack" "\<not> zeroed hashed_cfg full_stack"
    "\<not> zeroed guarded_cfg guarded_stack"
    by (simp_all add: zeroed_def full_stack_def guarded_stack_def)
  have u: "\<not> UNPROTECT hashed_cfg" "\<not> UNPROTECT guarded_cfg"
    by (simp_all add: hashed_cfg_def guarded_cfg_def)
  have a: "construct_stack unprotected_cfg full_heap full_stack (reply_at 0x2000) =
     Returns \<lparr>heap_of = empty_heap(0x2000 \<mapsto> \<lparr>cells = [1, 2, 3, 4, 5, 6, 7, 8]\<rparr>),
              stk_of = full_stack\<lparr>items := 0x2000, size_stk := 0\<rparr>,
              err_of = Vrf {}, ret_of = True\<rparr>"
    by (simp add: run_defs full_stack_def full_heap_def)
  have b: "construct_stack hashed_cfg empty_heap full_stack (reply_at 0x2000) = Fault"
    by (simp add: run_defs full_stack_def)
  have c: "construct_stack guarded_cfg guarded_heap guarded_stack (reply_at 0x2000) = Fault"
    by (simp add: run_defs guarded_stack_def guarded_heap_def)
  from z u a b c show ?thesis by simp
qed

text \<open>With \<^verbatim>\<open>CANARY_PROTECT\<close>, construct on a stack in the unconstructed state has no
  defined behaviour when the allocator does not fail: \<^verbatim>\<open>realloc_stack\<close> stores the left
  guard word before the block.\<close>

lemma construct_canary_zeroed:
  assumes "canary_protect cfg" and "zeroed cfg stk" and "addr r \<noteq> 0"
  shows "construct_stack cfg h stk r = Fault"
proof -
  from assms(2) have e: "(if UNPROTECT cfg then {} else verify_empty_stack cfg stk) = {}"
    by (simp add: verify_empty_stack_zeroed)
  from assms(2) have f: "items stk = 0" "size_stk stk = 0" by (simp_all add: zeroed_def)
  have "realloc_stack cfg h stk INIT_CAP r = Fault"
    using f assms(1,3)
    by (simp add: realloc_stack_def realloc_def block_at_def store_canary_def
        right_canary_off_def left_canary_off_def INIT_CAP_def sizeof_item_t_def
        PTRDIFF_MAX_def Let_def)
  then show ?thesis using e by (simp add: construct_stack_def Let_def)
qed

text \<open>
  Claim C8, as the code has it. When the buffer pointer is null or addresses a block,
  \<^verbatim>\<open>destruct_stack\<close> returns with every field of the build zero (the unconstructed
  state), having freed the block if there was one. A second destruct returns the same
  structure and the same heap: it frees nothing. In a build without \<^verbatim>\<open>CANARY_PROTECT\<close>,
  a construct on the destructed stack sets no error when the allocator does not fail,
  and makes a live stack of capacity 8 and size 0.
\<close>

theorem destruct_resets:
  assumes "items stk = 0 \<or> h (items stk) \<noteq> None"
  shows "\<exists>h' stk'. destruct_stack cfg h stk = Returns (h', stk') \<and>
           items stk' = 0 \<and> capacity stk' = 0 \<and> size_stk stk' = 0 \<and>
           (hash_protect cfg \<longrightarrow> hash stk' = 0) \<and>
           (canary_protect cfg \<longrightarrow> left_canary stk' = 0 \<and> right_canary stk' = 0) \<and>
           verify_empty_stack cfg stk' = {} \<and>
           h' = (if items stk = 0 then h else h(items stk := None)) \<and>
           destruct_stack cfg h' stk' = Returns (h', stk') \<and>
           (\<not> canary_protect cfg \<longrightarrow>
              (\<forall>r. addr r \<noteq> 0 \<longrightarrow>
                 (\<exists>res. construct_stack cfg h' stk' r = Returns res \<and> \<not> is_err (err_of res) \<and>
                    ret_of res \<and> live cfg (heap_of res) (stk_of res) \<and>
                    capacity (stk_of res) = INIT_CAP \<and> size_stk (stk_of res) = 0)))"
proof -
  let ?h = "if items stk = 0 then h else h(items stk := None)"
  let ?s1 = "stk\<lparr>items := 0, capacity := 0, size_stk := 0\<rparr>"
  let ?s2 = "if hash_protect cfg then ?s1\<lparr>hash := 0\<rparr> else ?s1"
  let ?s3 = "if canary_protect cfg then ?s2\<lparr>left_canary := 0, right_canary := 0\<rparr> else ?s2"
  have d: "destruct_stack cfg h stk = Returns (?h, ?s3)"
    using assms by (auto simp: destruct_stack_def Let_def)
  have z: "zeroed cfg ?s3" by (simp add: zeroed_def)
  then have f: "items ?s3 = 0" "capacity ?s3 = 0" "size_stk ?s3 = 0"
    "hash_protect cfg \<longrightarrow> hash ?s3 = 0"
    "canary_protect cfg \<longrightarrow> left_canary ?s3 = 0 \<and> right_canary ?s3 = 0"
    unfolding zeroed_def by blast+
  have v: "verify_empty_stack cfg ?s3 = {}" using z by (simp only: verify_empty_stack_zeroed)
  have d2: "destruct_stack cfg ?h ?s3 = Returns (?h, ?s3)"
    by (simp add: destruct_stack_def Let_def)
  have c: "\<exists>res. construct_stack cfg ?h ?s3 r = Returns res \<and> \<not> is_err (err_of res) \<and>
      ret_of res \<and> live cfg (heap_of res) (stk_of res) \<and>
      capacity (stk_of res) = INIT_CAP \<and> size_stk (stk_of res) = 0"
    if "\<not> canary_protect cfg" "addr r \<noteq> 0" for r
  proof -
    from construct_zeroed [OF that(1) z that(2), of ?h] obtain res where
      r: "construct_stack cfg ?h ?s3 r = Returns res" and e: "err_of res = Vrf {}"
      and o: "ret_of res" "capacity (stk_of res) = INIT_CAP" "size_stk (stk_of res) = 0"
      by blast
    from e have ne: "\<not> is_err (err_of res)" by (simp add: is_err_def)
    from live.constructed [OF r ne] r ne o show ?thesis by blast
  qed
  from d f v d2 c show ?thesis by blast
qed

theorem destruct_resets_witness:
  "nine_heap (items nine_stack) \<noteq> None \<and> \<not> canary_protect hashed_cfg \<and>
   destruct_stack hashed_cfg nine_heap nine_stack = Returns (empty_heap, zero_stack) \<and>
   destruct_stack hashed_cfg empty_heap zero_stack = Returns (empty_heap, zero_stack) \<and>
   construct_stack hashed_cfg empty_heap zero_stack (reply_at 0x1000) =
     Returns \<lparr>heap_of = fresh_heap, stk_of = fresh_stack, err_of = Vrf {}, ret_of = True\<rparr> \<and>
   live hashed_cfg fresh_heap fresh_stack \<and> capacity fresh_stack = INIT_CAP \<and>
   size_stk fresh_stack = 0"
proof -
  have a: "nine_heap (items nine_stack) \<noteq> None" by (simp add: nine_heap_def nine_stack_def)
  have n: "\<not> canary_protect hashed_cfg" by (simp add: canary_protect_def hashed_cfg_def)
  have q: "addr (reply_at 0x1000) \<noteq> 0" by (simp add: reply_at_def)
  from a have "items nine_stack = 0 \<or> nine_heap (items nine_stack) \<noteq> None" by simp
  from destruct_resets [where h = nine_heap and stk = nine_stack and cfg = hashed_cfg, OF this]
  obtain h' stk' where
    d: "destruct_stack hashed_cfg nine_heap nine_stack = Returns (h', stk')"
    and d2: "destruct_stack hashed_cfg h' stk' = Returns (h', stk')"
    and c: "\<not> canary_protect hashed_cfg \<longrightarrow>
      (\<forall>r. addr r \<noteq> 0 \<longrightarrow>
         (\<exists>res. construct_stack hashed_cfg h' stk' r = Returns res \<and> \<not> is_err (err_of res) \<and>
            ret_of res \<and> live hashed_cfg (heap_of res) (stk_of res) \<and>
            capacity (stk_of res) = INIT_CAP \<and> size_stk (stk_of res) = 0))"
    by blast
  have e: "destruct_stack hashed_cfg nine_heap nine_stack = Returns (empty_heap, zero_stack)"
    by (simp add: run_defs nine_heap_def nine_stack_def)
  with d have eq: "h' = empty_heap" "stk' = zero_stack" by simp_all
  with d2 have e2: "destruct_stack hashed_cfg empty_heap zero_stack =
      Returns (empty_heap, zero_stack)"
    by simp
  from c n q eq obtain res where
    "construct_stack hashed_cfg empty_heap zero_stack (reply_at 0x1000) = Returns res"
    and l: "live hashed_cfg (heap_of res) (stk_of res)"
      "capacity (stk_of res) = INIT_CAP" "size_stk (stk_of res) = 0"
    by blast
  with construct_fresh
  have "res = \<lparr>heap_of = fresh_heap, stk_of = fresh_stack, err_of = Vrf {}, ret_of = True\<rparr>"
    by simp
  with l have "live hashed_cfg fresh_heap fresh_stack" "capacity fresh_stack = INIT_CAP"
    "size_stk fresh_stack = 0"
    by simp_all
  with a n e e2 construct_fresh show ?thesis by simp
qed

text \<open>The claim C8 as it was stated fails on a structure whose buffer pointer addresses
  no block, which \<^verbatim>\<open>destruct_stack\<close> hands to \<^verbatim>\<open>free\<close>; and, with \<^verbatim>\<open>CANARY_PROTECT\<close>, on
  the destructed stack, where the construct that follows stores the left guard word
  before the block it was given.\<close>

theorem destruct_resets_counterexample:
  "destruct_stack hashed_cfg empty_heap full_stack = Fault \<and>
   destruct_stack guarded_cfg empty_heap zero_stack = Returns (empty_heap, zero_stack) \<and>
   construct_stack guarded_cfg empty_heap zero_stack (reply_at 0x1000) = Fault"
  by (simp add: run_defs full_stack_def)

section \<open>What pop returns with an error\<close>

lemma checked_verify_Vrf:
  "checked_verify cfg h stk = Returns (e, stk') \<Longrightarrow> \<exists>vrf. e = Vrf vrf"
  by (auto simp: checked_verify_def split: if_splits outcome.splits)

lemma refresh_hash_fields:
  "refresh_hash cfg h stk = Returns stk' \<Longrightarrow>
   size_stk stk' = size_stk stk \<and> capacity stk' = capacity stk \<and> items stk' = items stk"
  by (auto simp: refresh_hash_def split: if_splits outcome.splits dest: hash_stack_same)

lemma refresh_and_verify_fields:
  assumes "refresh_and_verify cfg h stk = Returns (e, stk')"
  shows "size_stk stk' = size_stk stk \<and> items stk' = items stk \<and> (\<exists>vrf. e = Vrf vrf) \<and>
         checked_verify cfg h stk' = Returns (e, stk')"
proof -
  from assms obtain s where r: "refresh_hash cfg h stk = Returns s"
    and c: "checked_verify cfg h s = Returns (e, stk')"
    by (auto simp: refresh_and_verify_def split: outcome.splits)
  from checked_verify_same [OF c] refresh_hash_fields [OF r] checked_verify_Vrf [OF c] c
  show ?thesis by simp
qed

lemma nth_memset_from_below: "i < n \<Longrightarrow> i < length xs \<Longrightarrow> memset_from n xs ! i = xs ! i"
  by (simp add: memset_from_def nth_append)

text \<open>The items below the size go with the buffer when \<^verbatim>\<open>realloc_stack\<close> moves it.\<close>

lemma realloc_stack_keeps:
  assumes ra: "realloc_stack cfg h stk c' r = Returns (h1, p)" and p: "p \<noteq> 0"
    and b: "block_at h (items stk) = Some b"
    and i: "i < unat (size_stk stk)" "i < length (cells b)"
    and ld: "load_item h1 p i = Returns v"
  shows "v = cells b ! i"
proof -
  from ra p have nc: "\<not> canary_protect cfg" using realloc_stack_canary by blast
  let ?bytes = "unat (c' * sizeof_item_t)"
  let ?new = "map (\<lambda>k. if k < length (cells b) then cells b ! k else junk r k) [0..<?bytes div 4]"
  let ?h0 = "if items stk = 0 then h else h(items stk := None)"
  from ra p nc b have ra': "realloc h (items stk) ?bytes r =
      Returns (?h0(addr r \<mapsto> \<lparr>cells = ?new\<rparr>), addr r)"
    by (auto simp: realloc_stack_def realloc_def Let_def split: if_splits outcome.splits)
  with ra p nc have h1: "h1 = ?h0(addr r \<mapsto> \<lparr>cells = memset_from (unat (size_stk stk)) ?new\<rparr>)"
    and pa: "p = addr r"
    by (auto simp: realloc_stack_def block_at_def Let_def split: if_splits)
  from ld h1 pa p have il: "i < ?bytes div 4"
    and v: "v = memset_from (unat (size_stk stk)) ?new ! i"
    by (auto simp: load_item_def block_at_def split: if_splits)
  from v il i show ?thesis by (simp add: nth_memset_from_below)
qed

text \<open>A stack that passes \<^verbatim>\<open>verify_stack\<close> in a build without guards, with a capacity
  that no push or pop produces.\<close>

definition odd_stack :: stack_t where
  "odd_stack = \<lparr>items = 0x1000, capacity = 9, size_stk = 3, hash = 0,
     left_canary = 0, right_canary = 0\<rparr>"

definition odd_heap :: heap where
  "odd_heap = empty_heap(0x1000 \<mapsto>
     \<lparr>cells = [11, 22, 33, 0x75757575, 0x75757575, 0x75757575, 0x75757575, 0x75757575,
               0x75757575]\<rparr>)"

text \<open>The claim C10 as it was stated fails on this stack: the pop shrinks the buffer to
  capacity 4, removes the item 33, and the verification that closes \<^verbatim>\<open>pop_stack\<close> raises
  \<^verbatim>\<open>INVALID_CAPACITY\<close>. The error is set and the value returned is the item.\<close>

theorem pop_error_return_counterexample:
  "valid plain_cfg odd_heap odd_stack \<and>
   pop_stack plain_cfg odd_heap odd_stack (reply_at 0x1000) =
     Returns \<lparr>heap_of = empty_heap(0x1000 \<mapsto>
                  \<lparr>cells = [11, 22, 0x75757575, 0x75757575]\<rparr>),
              stk_of = odd_stack\<lparr>capacity := 4, size_stk := 2\<rparr>,
              err_of = Vrf {INVALID_CAPACITY}, ret_of = 33\<rparr> \<and>
   is_err (Vrf {INVALID_CAPACITY}) \<and> 33 \<noteq> POISON"
  by (simp add: run_defs valid_def holds_capacity_def odd_stack_def odd_heap_def
      ucast_scast_item)

text \<open>
  Claim C10, as the code has it. When \<^verbatim>\<open>pop_stack\<close> sets \<^verbatim>\<open>STK_EMPTY_POP\<close> or
  \<^verbatim>\<open>STK_BAD_ALLOC\<close>, or the verification that opens it does not pass, it returns the
  poison and leaves the structure and the heap as they were. Every other error is the
  mask of the verification that closes the operation: then the stack had passed the
  opening verification and was not empty, the size has gone down by one, the slot of the
  item removed holds the poison, and the value returned is the item removed, the one
  that the buffer held at the index \<open>size - 1\<close>.
\<close>

theorem pop_error_return:
  assumes "pop_stack cfg h stk r = Returns res" and "is_err (err_of res)"
  shows "(err_of res = STK_EMPTY_POP \<or> err_of res = STK_BAD_ALLOC \<or>
          checked_verify cfg h stk \<noteq> Returns (Vrf {}, stk) \<longrightarrow>
            ret_of res = POISON \<and> stk_of res = stk \<and> heap_of res = h) \<and>
         (err_of res \<noteq> STK_EMPTY_POP \<and> err_of res \<noteq> STK_BAD_ALLOC \<and>
          checked_verify cfg h stk = Returns (Vrf {}, stk) \<longrightarrow>
            size_stk stk \<noteq> 0 \<and> size_stk (stk_of res) = size_stk stk - 1 \<and>
            checked_verify cfg (heap_of res) (stk_of res) = Returns (err_of res, stk_of res) \<and>
            load_item (heap_of res) (items (stk_of res)) (unat (size_stk stk - 1)) =
              Returns POISON \<and>
            (\<forall>b. block_at h (items stk) = Some b \<and> unat (size_stk stk) \<le> length (cells b) \<longrightarrow>
               ret_of res = cells b ! (unat (size_stk stk) - 1)))"
proof -
  from assms(1) obtain e0 stk0 where cv: "checked_verify cfg h stk = Returns (e0, stk0)"
    by (cases "checked_verify cfg h stk") (auto simp: pop_stack_def Let_def)
  note at_finally_Returns [dest!]
  from checked_verify_same [OF cv] have s0: "stk0 = stk" .
  let ?early = "ret_of res = POISON \<and> stk_of res = stk \<and> heap_of res = h \<and>
      (err_of res = STK_EMPTY_POP \<or> err_of res = STK_BAD_ALLOC \<or>
       checked_verify cfg h stk \<noteq> Returns (Vrf {}, stk))"
  let ?late = "checked_verify cfg h stk = Returns (Vrf {}, stk) \<and>
      err_of res \<noteq> STK_EMPTY_POP \<and> err_of res \<noteq> STK_BAD_ALLOC \<and>
      size_stk stk \<noteq> 0 \<and> size_stk (stk_of res) = size_stk stk - 1 \<and>
      checked_verify cfg (heap_of res) (stk_of res) = Returns (err_of res, stk_of res) \<and>
      load_item (heap_of res) (items (stk_of res)) (unat (size_stk stk - 1)) = Returns POISON \<and>
      (\<forall>b. block_at h (items stk) = Some b \<and> unat (size_stk stk) \<le> length (cells b) \<longrightarrow>
         ret_of res = cells b ! (unat (size_stk stk) - 1))"
  have "?early \<or> ?late"
  proof (cases "is_err e0")
    case True
    then have "e0 \<noteq> Vrf {}" by (simp add: is_err_def)
    then show ?thesis using True assms(1) cv s0
      by (auto simp: pop_stack_def ucast_scast_item)
  next
    case ok: False
    then have e0: "e0 = Vrf {}" by (simp add: is_err_def)
    show ?thesis
    proof (cases "size_stk stk = 0")
      case True
      then show ?thesis using assms(1) cv s0 ok by (auto simp: pop_stack_def ucast_scast_item)
    next
      case ne: False
      have s1: "unat (size_stk stk - 1) = unat (size_stk stk) - 1" and pos: "0 < unat (size_stk stk)"
        using unat_pred [OF ne] by simp_all
      let ?i = "unat (size_stk stk - 1)"
      let ?c = "capacity stk div CAP_FACTOR"
      let ?shrink = "if shrinkable stk then
          (let capacity' = capacity stk div CAP_FACTOR
           in case realloc_stack cfg h stk capacity' r of
                Fault \<Rightarrow> Fault
              | Returns (h1, p) \<Rightarrow>
                  if p = 0 then Returns (h1, None)
                  else Returns (h1, Some (stk\<lparr>items := p, capacity := capacity'\<rparr>)))
        else Returns (h, Some stk)"
      from assms(1) cv s0 ok ne obtain h1 o1 where g: "?shrink = Returns (h1, o1)"
        by (cases ?shrink) (auto simp: pop_stack_def Let_def)
      show ?thesis
      proof (cases o1)
        case None
        with g have "h1 = h"
          by (auto simp: realloc_stack_def realloc_def Let_def
              split: if_splits outcome.splits option.splits)
        then show ?thesis using assms(1) cv s0 ok ne g None
          by (auto simp: pop_stack_def ucast_scast_item Let_def)
      next
        case (Some stk1)
        with g have sz1: "size_stk stk1 = size_stk stk"
          by (auto simp: Let_def split: if_splits outcome.splits)
        let ?stk2 = "stk1\<lparr>size_stk := size_stk stk - 1\<rparr>"
        from assms(1) cv s0 ok ne g Some sz1 obtain v h2 e stk3 where
          ld: "load_item h1 (items stk1) ?i = Returns v"
          and st: "store_item h1 (items stk1) ?i POISON = Returns h2"
          and rv: "refresh_and_verify cfg h2 ?stk2 = Returns (e, stk3)"
          and res: "err_of res = e" "stk_of res = stk3" "heap_of res = h2" "ret_of res = v"
          by (auto simp: pop_stack_def Let_def ucast_scast_item split: outcome.splits)
        from refresh_and_verify_fields [OF rv] res
        have f: "size_stk (stk_of res) = size_stk stk - 1" "items (stk_of res) = items stk1"
          "\<exists>vrf. err_of res = Vrf vrf"
          "checked_verify cfg (heap_of res) (stk_of res) = Returns (err_of res, stk_of res)"
          by simp_all
        from st have po: "load_item h2 (items stk1) ?i = Returns POISON"
          by (auto simp: store_item_def load_item_def block_at_def
              split: option.splits if_splits)
        have el: "v = cells b ! (unat (size_stk stk) - 1)"
          if b: "block_at h (items stk) = Some b" "unat (size_stk stk) \<le> length (cells b)" for b
        proof (cases "shrinkable stk")
          case False
          with g Some have "h1 = h" "stk1 = stk" by simp_all
          with ld b(1) show ?thesis by (auto simp: load_item_def s1 split: if_splits)
        next
          case True
          with g Some obtain p where ra: "realloc_stack cfg h stk ?c r = Returns (h1, p)"
            and p: "p \<noteq> 0" and it: "items stk1 = p"
            by (auto simp: Let_def split: outcome.splits if_splits)
          have i: "?i < unat (size_stk stk)" "?i < length (cells b)"
            using s1 pos b(2) by simp_all
          from ld it have "load_item h1 p ?i = Returns v" by simp
          from realloc_stack_keeps [OF ra p b(1) i this] show ?thesis by (simp add: s1)
        qed
        show ?thesis using cv s0 e0 ne f po res el by auto
      qed
    qed
  qed
  then show ?thesis by auto
qed

theorem pop_error_return_witness:
  "pop_stack plain_cfg odd_heap odd_stack (reply_at 0x1000) =
     Returns \<lparr>heap_of = empty_heap(0x1000 \<mapsto> \<lparr>cells = [11, 22, 0x75757575, 0x75757575]\<rparr>),
              stk_of = odd_stack\<lparr>capacity := 4, size_stk := 2\<rparr>,
              err_of = Vrf {INVALID_CAPACITY}, ret_of = 33\<rparr> \<and>
   checked_verify plain_cfg odd_heap odd_stack = Returns (Vrf {}, odd_stack) \<and>
   odd_heap (items odd_stack) =
     Some \<lparr>cells = [11, 22, 33, 0x75757575, 0x75757575, 0x75757575, 0x75757575, 0x75757575,
                     0x75757575]\<rparr> \<and>
   size_stk odd_stack = 3 \<and>
   pop_stack plain_cfg odd_heap odd_stack (reply_at 0) =
     Returns \<lparr>heap_of = odd_heap, stk_of = odd_stack, err_of = STK_BAD_ALLOC,
       ret_of = POISON\<rparr>"
proof -
  let ?b = "\<lparr>cells = [11, 22, 33, 0x75757575, 0x75757575, 0x75757575, 0x75757575, 0x75757575,
      0x75757575 :: item_t]\<rparr>"
  let ?late = "\<lparr>heap_of = empty_heap(0x1000 \<mapsto> \<lparr>cells = [11, 22, 0x75757575, 0x75757575]\<rparr>),
      stk_of = odd_stack\<lparr>capacity := 4, size_stk := 2\<rparr>,
      err_of = Vrf {INVALID_CAPACITY}, ret_of = 33 :: item_t\<rparr>"
  let ?early = "\<lparr>heap_of = odd_heap, stk_of = odd_stack, err_of = STK_BAD_ALLOC,
      ret_of = POISON\<rparr>"
  have p: "pop_stack plain_cfg odd_heap odd_stack (reply_at 0x1000) = Returns ?late"
    by (simp add: run_defs odd_stack_def odd_heap_def ucast_scast_item)
  have e: "is_err (err_of ?late)" by (simp add: is_err_def)
  have cv: "checked_verify plain_cfg odd_heap odd_stack = Returns (Vrf {}, odd_stack)"
    by (simp add: run_defs odd_stack_def)
  have b: "block_at odd_heap (items odd_stack) = Some ?b" "odd_heap (items odd_stack) = Some ?b"
    "unat (size_stk odd_stack) \<le> length (cells ?b)" "size_stk odd_stack = 3"
    by (simp_all add: block_at_def odd_heap_def odd_stack_def empty_heap_def)
  from pop_error_return [OF p e] cv b
  have "ret_of ?late = cells ?b ! (unat (size_stk odd_stack) - 1)" by simp
  have q: "pop_stack plain_cfg odd_heap odd_stack (reply_at 0) = Returns ?early"
    by (simp add: run_defs odd_stack_def odd_heap_def ucast_scast_item)
  have "is_err (err_of ?early)" by (simp add: is_err_def)
  from pop_error_return [OF q this]
  have "ret_of ?early = POISON \<and> stk_of ?early = odd_stack \<and> heap_of ?early = odd_heap" by simp
  with p cv b q show ?thesis by simp
qed

end
